theory Spec2Isabelle
  imports Main "HOL-Library.Sublist"
begin

section \<open>The robust channel of aio-pika (\<^verbatim>\<open>aio_pika/robust_channel.py\<close>)\<close>

text \<open>
  \<^verbatim>\<open>RobustChannel\<close> extends \<^verbatim>\<open>Channel\<close>: it remembers the QoS pair and the
  exchanges and queues declared through it, and replays them when the connection
  manager calls \<^verbatim>\<open>on_reconnect\<close>. The embedding is sequential: every coroutine is a
  function from the state before the call to the state after it and the value or
  exception it ends with. Mutations made before an exception is raised stay in the
  returned state, as they do in Python.

  Code that the module imports but does not contain (the base \<^verbatim>\<open>Channel\<close>, the
  \<^verbatim>\<open>FutureStore\<close>, the entities' own \<^verbatim>\<open>on_reconnect\<close>, the broker) is
  represented by an environment that decides how each such call ends, and by a
  trace that records the calls in the order in which they are made.
\<close>

subsection \<open>Errors, futures, entities\<close>

datatype error =
    ConnectionError string
  | NotImplementedError string
  | AttributeError string
  | RuntimeError string
  | BrokerError nat

text \<open>An \<^verbatim>\<open>asyncio\<close> future: unresolved, resolved with a result, or with an exception.\<close>

datatype future = Pending | Result | Exception error

text \<open>
  An \<^verbatim>\<open>Exchange\<close> or \<^verbatim>\<open>Queue\<close> object as the base declare returns it: its identity
  and the name the entity has on the broker (for a queue declared without a name,
  the name the server generated).
\<close>

record entity =
  ent_id :: nat
  ent_name :: string

text \<open>The keyword arguments that the declare methods hand on to the base class.\<close>

record exchange_params =
  ex_type :: string
  ex_durable :: "bool option"
  ex_auto_delete :: bool
  ex_internal :: bool
  ex_passive :: bool
  ex_arguments :: "(string \<times> string) list option"
  ex_timeout :: "int option"

record queue_params =
  qu_durable :: "bool option"
  qu_exclusive :: bool
  qu_passive :: bool
  qu_auto_delete :: bool
  qu_arguments :: "(string \<times> string) list option"
  qu_timeout :: "int option"

subsection \<open>Calls to collaborators and the shared world\<close>

datatype call =
    SetException nat error
  | CreateFuture nat
  | RejectAll nat error
  | Adopt nat "int option"
  | SuperInitialize
  | SuperSetQos int int "int option"
  | ChannelClose nat
  | AwaitClosing nat
  | SuperDeclareExchange string exchange_params
  | SuperExchangeDelete string "int option" bool bool
  | SuperDeclareQueue "string option" queue_params
  | SuperQueueDelete string "int option" bool bool bool
  | ExchangeOnReconnect entity
  | QueueOnReconnect entity

text \<open>
  An event is a call together with how it ended: \<open>None\<close> when it returned.
  \<open>Adopt\<close> is no call: it records the place in the order at which \<^verbatim>\<open>on_reconnect\<close>
  assigns the new connection and channel number to the channel.
\<close>

type_synonym event = "call \<times> error option"

record registry =
  parent :: "nat option"
  tracked :: "nat list"

text \<open>
  What channels of one connection share: the futures (a future's identity is its
  index), the pending-operation registries (likewise), and the trace.
\<close>

record world =
  futs :: "future list"
  stores :: "registry list"
  trace :: "event list"

record chan =
  connection :: nat
  channel_number :: "int option"
  futures :: nat
  closing :: nat
  channel :: "nat option"
  closed :: bool
  exchanges :: "(string \<times> entity) list"
  queues :: "(string option \<times> entity) list"
  qos :: "int \<times> int"

text \<open>
  The environment. \<open>reply\<close> says how a call to a collaborator ends, given the trace
  so far; \<open>exchange_object\<close> and \<open>queue_object\<close> give the object a successful base
  declare returns; \<open>handle\<close> gives the handle a successful base \<^verbatim>\<open>initialize\<close> opens.
  \<open>ensure_channel_is_open\<close> is the check of the decorator
  \<^verbatim>\<open>BaseChannel._ensure_channel_is_open\<close>, which wraps \<^verbatim>\<open>close\<close> and whose body is in
  \<^verbatim>\<open>aio_pika/common.py\<close>: \<open>None\<close> lets the call through, \<open>Some e\<close> raises \<open>e\<close>
  before the wrapped body runs.
\<close>

record env =
  reply :: "event list \<Rightarrow> call \<Rightarrow> error option"
  exchange_object :: "event list \<Rightarrow> string \<Rightarrow> exchange_params \<Rightarrow> entity"
  queue_object :: "event list \<Rightarrow> string option \<Rightarrow> queue_params \<Rightarrow> entity"
  handle :: "event list \<Rightarrow> nat"
  ensure_channel_is_open :: "world \<Rightarrow> chan \<Rightarrow> error option"

definition log_call :: "call \<Rightarrow> error option \<Rightarrow> world \<Rightarrow> world" where
  "log_call c r w = w\<lparr>trace := trace w @ [(c, r)]\<rparr>"

definition invoke :: "env \<Rightarrow> world \<Rightarrow> call \<Rightarrow> world \<times> error option" where
  "invoke E w c = (let r = reply E (trace w) c in (log_call c r w, r))"

subsection \<open>Futures of the event loop\<close>

text \<open>
  A reference to a future always denotes an allocated one; an index outside the
  heap reads as unresolved and a write to it is dropped.
\<close>

definition future_state :: "world \<Rightarrow> nat \<Rightarrow> future" where
  "future_state w f = (if f < length (futs w) then futs w ! f else Pending)"

definition future_done :: "world \<Rightarrow> nat \<Rightarrow> bool" where
  "future_done w f = (future_state w f \<noteq> Pending)"

definition loop_create_future :: "world \<Rightarrow> world \<times> nat" where
  "loop_create_future w =
     (let f = length (futs w)
      in (log_call (CreateFuture f) None (w\<lparr>futs := futs w @ [Pending]\<rparr>), f))"

definition set_exception :: "world \<Rightarrow> nat \<Rightarrow> error \<Rightarrow> world" where
  "set_exception w f e =
     log_call (SetException f e) None (w\<lparr>futs := (futs w)[f := Exception e]\<rparr>)"

text \<open>
  \<^verbatim>\<open>await fut\<close>: an unresolved future is resolved by the environment (here the
  underlying handle finishing its close), a resolved one yields what it holds.
\<close>

definition await_future :: "env \<Rightarrow> world \<Rightarrow> nat \<Rightarrow> world \<times> error option" where
  "await_future E w f =
     (case future_state w f of
        Pending \<Rightarrow>
          (let r = reply E (trace w) (AwaitClosing f);
               v = (case r of None \<Rightarrow> Result | Some e \<Rightarrow> Exception e)
           in (log_call (AwaitClosing f) r (w\<lparr>futs := (futs w)[f := v]\<rparr>), r))
      | Result \<Rightarrow> (w, None)
      | Exception e \<Rightarrow> (w, Some e))"

subsection \<open>The pending-operation registry\<close>

text \<open>
  Modelled from the spec: \<^verbatim>\<open>FutureStore\<close> (\<^verbatim>\<open>aio_pika/common.py\<close>) is not part of
  the module. \<open>get_child\<close> produces a new, empty registry below the given one;
  \<open>track\<close> registers a new outstanding operation with a registry; \<open>reject_all\<close>
  resolves every still-unresolved operation tracked by this registry, and only
  this registry, with the error, then clears it.
\<close>

definition get_child :: "world \<Rightarrow> nat \<Rightarrow> world \<times> nat" where
  "get_child w p =
     (w\<lparr>stores := stores w @ [\<lparr>parent = Some p, tracked = []\<rparr>]\<rparr>, length (stores w))"

definition track :: "world \<Rightarrow> nat \<Rightarrow> world \<times> nat" where
  "track w r =
     (let f = length (futs w)
      in (if r < length (stores w)
          then w\<lparr>futs := futs w @ [Pending],
                 stores := (stores w)[r := (stores w ! r)\<lparr>tracked := tracked (stores w ! r) @ [f]\<rparr>]\<rparr>
          else w\<lparr>futs := futs w @ [Pending]\<rparr>, f))"

definition reject_future :: "error \<Rightarrow> future list \<Rightarrow> nat \<Rightarrow> future list" where
  "reject_future e fs f =
     (if f < length fs \<and> fs ! f = Pending then fs[f := Exception e] else fs)"

definition reject_all :: "world \<Rightarrow> nat \<Rightarrow> error \<Rightarrow> world" where
  "reject_all w r e =
     log_call (RejectAll r e) None
       (if r < length (stores w)
        then w\<lparr>futs := foldl (reject_future e) (futs w) (tracked (stores w ! r)),
               stores := (stores w)[r := (stores w ! r)\<lparr>tracked := []\<rparr>]\<rparr>
        else w)"

subsection \<open>Python dictionaries\<close>

text \<open>
  A \<^verbatim>\<open>dict\<close> keeps insertion order: assigning to a key that is present replaces
  the value where it stands, assigning to a new key appends; \<^verbatim>\<open>pop(k, None)\<close>
  removes the key if it is there.
\<close>

fun dict_setitem :: "'k \<Rightarrow> 'v \<Rightarrow> ('k \<times> 'v) list \<Rightarrow> ('k \<times> 'v) list" where
  "dict_setitem k v [] = [(k, v)]"
| "dict_setitem k v (p # ps) =
     (if fst p = k then (k, v) # ps else p # dict_setitem k v ps)"

definition dict_pop :: "'k \<Rightarrow> ('k \<times> 'v) list \<Rightarrow> ('k \<times> 'v) list" where
  "dict_pop k ps = filter (\<lambda>p. fst p \<noteq> k) ps"

definition dict_values :: "('k \<times> 'v) list \<Rightarrow> 'v list" where
  "dict_values ps = map snd ps"

subsection \<open>The base channel\<close>

text \<open>
  Modelled from the spec: \<^verbatim>\<open>Channel\<close> (\<^verbatim>\<open>aio_pika/channel.py\<close>) is not part of the
  module. Its constructor allocates the closing signal; its \<^verbatim>\<open>initialize\<close> opens the
  underlying handle; its other primitives speak to the broker and change nothing
  that the robust channel reads.
\<close>

definition super_init :: "world \<Rightarrow> world \<times> nat" where
  "super_init w = loop_create_future w"

definition super_initialize :: "env \<Rightarrow> world \<Rightarrow> chan \<Rightarrow> world \<times> chan \<times> (error + unit)" where
  "super_initialize E w s =
     (case invoke E w SuperInitialize of
        (w1, Some e) \<Rightarrow> (w1, s, Inl e)
      | (w1, None) \<Rightarrow> (w1, s\<lparr>channel := Some (handle E (trace w))\<rparr>, Inr ()))"

subsection \<open>\<^verbatim>\<open>RobustChannel\<close>\<close>

text \<open>
  \<^verbatim>\<open>__init__\<close>. The loop is the world; \<^verbatim>\<open>publisher_confirms\<close>, \<^verbatim>\<open>on_return_raises\<close>
  and \<^verbatim>\<open>success_close_codes\<close> are handed to the base constructor and never read
  by this class.
\<close>

definition init :: "world \<Rightarrow> nat \<Rightarrow> nat \<Rightarrow> int option \<Rightarrow> world \<times> chan" where
  "init w conn future_store number =
     (let (w1, child) = get_child w future_store;
          (w2, f) = super_init w1
      in (w2, \<lparr>connection = conn, channel_number = number, futures = child,
               closing = f, channel = None,
               closed = False, exchanges = [], queues = [], qos = (0, 0)\<rparr>))"

definition set_qos ::
  "env \<Rightarrow> world \<Rightarrow> chan \<Rightarrow> int \<Rightarrow> int \<Rightarrow> bool \<Rightarrow> int option \<Rightarrow> world \<times> chan \<times> (error + unit)" where
  "set_qos E w s prefetch_count prefetch_size all_channels timeout =
     (if all_channels
      then (w, s, Inl (NotImplementedError ''Not available to RobustConnection''))
      else
        (let s1 = s\<lparr>qos := (prefetch_count, prefetch_size)\<rparr>
         in (case invoke E w (SuperSetQos prefetch_count prefetch_size timeout) of
               (w1, Some e) \<Rightarrow> (w1, s1, Inl e)
             | (w1, None) \<Rightarrow> (w1, s1, Inr ()))))"

definition initialize ::
  "env \<Rightarrow> world \<Rightarrow> chan \<Rightarrow> int option \<Rightarrow> world \<times> chan \<times> (error + unit)" where
  "initialize E w s timeout =
     (case super_initialize E w s of
        (w1, s1, Inl e) \<Rightarrow> (w1, s1, Inl e)
      | (w1, s1, Inr result) \<Rightarrow>
          (case qos s1 of (prefetch_count, prefetch_size) \<Rightarrow>
             (case set_qos E w1 s1 prefetch_count prefetch_size False None of
                (w2, s2, Inl e) \<Rightarrow> (w2, s2, Inl e)
              | (w2, s2, Inr _) \<Rightarrow> (w2, s2, Inr result))))"

text \<open>
  The two loops of \<^verbatim>\<open>on_reconnect\<close>, over the values of the dictionaries.

  Modelled from the spec: the recovery hooks \<^verbatim>\<open>RobustExchange.on_reconnect\<close> and
  \<^verbatim>\<open>RobustQueue.on_reconnect\<close> (\<^verbatim>\<open>aio_pika/robust_exchange.py\<close>,
  \<^verbatim>\<open>aio_pika/robust_queue.py\<close>) are not part of the module. A hook re-asserts its
  entity against the broker and returns or raises; it changes nothing of the channel.
\<close>

fun recover_exchanges :: "env \<Rightarrow> world \<Rightarrow> entity list \<Rightarrow> world \<times> error option" where
  "recover_exchanges E w [] = (w, None)"
| "recover_exchanges E w (exchange # rest) =
     (case invoke E w (ExchangeOnReconnect exchange) of
        (w1, Some e) \<Rightarrow> (w1, Some e)
      | (w1, None) \<Rightarrow> recover_exchanges E w1 rest)"

fun recover_queues :: "env \<Rightarrow> world \<Rightarrow> entity list \<Rightarrow> world \<times> error option" where
  "recover_queues E w [] = (w, None)"
| "recover_queues E w (queue # rest) =
     (case invoke E w (QueueOnReconnect queue) of
        (w1, Some e) \<Rightarrow> (w1, Some e)
      | (w1, None) \<Rightarrow> recover_queues E w1 rest)"

definition on_reconnect ::
  "env \<Rightarrow> world \<Rightarrow> chan \<Rightarrow> nat \<Rightarrow> int option \<Rightarrow> world \<times> chan \<times> (error + unit)" where
  "on_reconnect E w s conn number =
     (let exc = ConnectionError ''Auto Reconnect Error'';
          w1 = (if \<not> future_done w (closing s) then set_exception w (closing s) exc else w);
          (w2, f) = loop_create_future w1;
          s1 = s\<lparr>closing := f\<rparr>;
          w3 = reject_all w2 (futures s1) exc;
          s2 = s1\<lparr>connection := conn\<rparr>;
          s3 = s2\<lparr>channel_number := number\<rparr>;
          w4 = log_call (Adopt conn number) None w3
      in (case initialize E w4 s3 None of
            (w5, s4, Inl e) \<Rightarrow> (w5, s4, Inl e)
          | (w5, s4, Inr _) \<Rightarrow>
              (case recover_exchanges E w5 (dict_values (exchanges s4)) of
                 (w6, Some e) \<Rightarrow> (w6, s4, Inl e)
               | (w6, None) \<Rightarrow>
                   (case recover_queues E w6 (dict_values (queues s4)) of
                      (w7, Some e) \<Rightarrow> (w7, s4, Inl e)
                    | (w7, None) \<Rightarrow> (w7, s4, Inr ())))))"

text \<open>
  \<^verbatim>\<open>close\<close>, behind its decorator. The write lock is free whenever a call starts in
  this sequential embedding, and is released on every way out of the block. The
  property \<^verbatim>\<open>self.closing\<close> of the base class yields the current closing signal.
\<close>

definition close :: "env \<Rightarrow> world \<Rightarrow> chan \<Rightarrow> world \<times> chan \<times> (error + unit)" where
  "close E w s =
     (case ensure_channel_is_open E w s of
        Some e \<Rightarrow> (w, s, Inl e)
      | None \<Rightarrow>
          if closed s then (w, s, Inr ())
          else
            (let s1 = s\<lparr>closed := True\<rparr>
             in (case channel s1 of
                   None \<Rightarrow> (w, s1, Inl (AttributeError ''NoneType object has no attribute close''))
                 | Some h \<Rightarrow>
                     (case invoke E w (ChannelClose h) of
                        (w1, Some e) \<Rightarrow> (w1, s1, Inl e)
                      | (w1, None) \<Rightarrow>
                          (case await_future E w1 (closing s1) of
                             (w2, Some e) \<Rightarrow> (w2, s1, Inl e)
                           | (w2, None) \<Rightarrow> (w2, s1\<lparr>channel := None\<rparr>, Inr ()))))))"

definition declare_exchange ::
  "env \<Rightarrow> world \<Rightarrow> chan \<Rightarrow> string \<Rightarrow> exchange_params \<Rightarrow> bool \<Rightarrow> world \<times> chan \<times> (error + entity)" where
  "declare_exchange E w s name ps robust =
     (case invoke E w (SuperDeclareExchange name ps) of
        (w1, Some e) \<Rightarrow> (w1, s, Inl e)
      | (w1, None) \<Rightarrow>
          (let exchange = exchange_object E (trace w) name ps
           in (w1,
               (if \<not> ex_internal ps \<and> robust
                then s\<lparr>exchanges := dict_setitem name exchange (exchanges s)\<rparr>
                else s),
               Inr exchange)))"

definition exchange_delete ::
  "env \<Rightarrow> world \<Rightarrow> chan \<Rightarrow> string \<Rightarrow> int option \<Rightarrow> bool \<Rightarrow> bool \<Rightarrow> world \<times> chan \<times> (error + unit)" where
  "exchange_delete E w s exchange_name timeout if_unused nowait =
     (case invoke E w (SuperExchangeDelete exchange_name timeout if_unused nowait) of
        (w1, Some e) \<Rightarrow> (w1, s, Inl e)
      | (w1, None) \<Rightarrow> (w1, s\<lparr>exchanges := dict_pop exchange_name (exchanges s)\<rparr>, Inr ()))"

definition declare_queue ::
  "env \<Rightarrow> world \<Rightarrow> chan \<Rightarrow> string option \<Rightarrow> queue_params \<Rightarrow> bool \<Rightarrow> world \<times> chan \<times> (error + entity)" where
  "declare_queue E w s name ps robust =
     (case invoke E w (SuperDeclareQueue name ps) of
        (w1, Some e) \<Rightarrow> (w1, s, Inl e)
      | (w1, None) \<Rightarrow>
          (let queue = queue_object E (trace w) name ps
           in (w1,
               (if robust
                then s\<lparr>queues := dict_setitem name queue (queues s)\<rparr>
                else s),
               Inr queue)))"

definition queue_delete ::
  "env \<Rightarrow> world \<Rightarrow> chan \<Rightarrow> string \<Rightarrow> int option \<Rightarrow> bool \<Rightarrow> bool \<Rightarrow> bool \<Rightarrow> world \<times> chan \<times> (error + unit)" where
  "queue_delete E w s queue_name timeout if_unused if_empty nowait =
     (case invoke E w (SuperQueueDelete queue_name timeout if_unused if_empty nowait) of
        (w1, Some e) \<Rightarrow> (w1, s, Inl e)
      | (w1, None) \<Rightarrow> (w1, s\<lparr>queues := dict_pop (Some queue_name) (queues s)\<rparr>, Inr ()))"

subsection \<open>Sequences of calls on one channel\<close>

datatype op =
    OnReconnect nat "int option"
  | Initialize "int option"
  | SetQos int int bool "int option"
  | Close
  | DeclareExchange string exchange_params bool
  | ExchangeDelete string "int option" bool bool
  | DeclareQueue "string option" queue_params bool
  | QueueDelete string "int option" bool bool bool

text \<open>One call; the caller goes on with the channel whether or not the call raised.\<close>

fun step :: "env \<Rightarrow> world \<times> chan \<Rightarrow> op \<Rightarrow> world \<times> chan" where
  "step E (w, s) (OnReconnect conn number) =
     (case on_reconnect E w s conn number of (w1, s1, _) \<Rightarrow> (w1, s1))"
| "step E (w, s) (Initialize timeout) =
     (case initialize E w s timeout of (w1, s1, _) \<Rightarrow> (w1, s1))"
| "step E (w, s) (SetQos p q all_channels timeout) =
     (case set_qos E w s p q all_channels timeout of (w1, s1, _) \<Rightarrow> (w1, s1))"
| "step E (w, s) Close =
     (case close E w s of (w1, s1, _) \<Rightarrow> (w1, s1))"
| "step E (w, s) (DeclareExchange name ps robust) =
     (case declare_exchange E w s name ps robust of (w1, s1, _) \<Rightarrow> (w1, s1))"
| "step E (w, s) (ExchangeDelete name timeout if_unused nowait) =
     (case exchange_delete E w s name timeout if_unused nowait of (w1, s1, _) \<Rightarrow> (w1, s1))"
| "step E (w, s) (DeclareQueue name ps robust) =
     (case declare_queue E w s name ps robust of (w1, s1, _) \<Rightarrow> (w1, s1))"
| "step E (w, s) (QueueDelete name timeout if_unused if_empty nowait) =
     (case queue_delete E w s name timeout if_unused if_empty nowait of (w1, s1, _) \<Rightarrow> (w1, s1))"

definition run :: "env \<Rightarrow> world \<times> chan \<Rightarrow> op list \<Rightarrow> world \<times> chan" where
  "run E ws ops = foldl (step E) ws ops"

text \<open>
  Calls on several channels of one connection, in any interleaving: each call names
  the channel it is made on by its position in the list of channels.
\<close>

fun step_on :: "env \<Rightarrow> world \<times> chan list \<Rightarrow> nat \<times> op \<Rightarrow> world \<times> chan list" where
  "step_on E (w, cs) (i, c) =
     (if i < length cs
      then (case step E (w, cs ! i) c of (w1, s1) \<Rightarrow> (w1, cs[i := s1]))
      else (w, cs))"

definition run_all :: "env \<Rightarrow> world \<times> chan list \<Rightarrow> (nat \<times> op) list \<Rightarrow> world \<times> chan list" where
  "run_all E wcs calls = foldl (step_on E) wcs calls"

subsection \<open>What the description of the channel says, for comparison\<close>

text \<open>
  The events a call appended to the trace.
\<close>

definition new_events :: "world \<Rightarrow> world \<Rightarrow> event list" where
  "new_events w w' = drop (length (trace w)) (trace w')"

text \<open>
  Steps 1 to 4 of the reconnection sequence as the spec orders them: reject the
  unresolved closing signal, allocate a new one, bulk-fail the registry, adopt the
  new connection and channel number.
\<close>

definition swap_calls :: "world \<Rightarrow> chan \<Rightarrow> nat \<Rightarrow> int option \<Rightarrow> call list" where
  "swap_calls w s conn number =
     (if future_done w (closing s) then []
      else [SetException (closing s) (ConnectionError ''Auto Reconnect Error'')])
     @ [CreateFuture (length (futs w)),
        RejectAll (futures s) (ConnectionError ''Auto Reconnect Error''),
        Adopt conn number]"

text \<open>
  Steps 5 to 7: open, reapply the remembered QoS pair, then the recovery hook of
  every remembered exchange, then that of every remembered queue, in map order.
\<close>

definition replay_calls :: "chan \<Rightarrow> call list" where
  "replay_calls s =
     [SuperInitialize, SuperSetQos (fst (qos s)) (snd (qos s)) None]
     @ map (\<lambda>entry. ExchangeOnReconnect (snd entry)) (exchanges s)
     @ map (\<lambda>entry. QueueOnReconnect (snd entry)) (queues s)"

text \<open>
  Making a list of calls strictly in order, each only once the one before it has
  returned, and giving up at the first that raises: the events, and the error if
  there was one.
\<close>

fun attempt :: "env \<Rightarrow> event list \<Rightarrow> call list \<Rightarrow> event list \<times> error option" where
  "attempt E t [] = ([], None)"
| "attempt E t (c # cs) =
     (case reply E t c of
        Some e \<Rightarrow> ([(c, Some e)], Some e)
      | None \<Rightarrow> (case attempt E (t @ [(c, None)]) cs of (es, r) \<Rightarrow> ((c, None) # es, r)))"

fun is_hook :: "call \<Rightarrow> bool" where
  "is_hook (ExchangeOnReconnect x) = True"
| "is_hook (QueueOnReconnect q) = True"
| "is_hook c = False"

text \<open>The QoS pair a call asks for, if it asks for one on this channel alone.\<close>

fun requested_qos :: "op \<Rightarrow> (int \<times> int) option" where
  "requested_qos (SetQos p q all_channels timeout) = (if all_channels then None else Some (p, q))"
| "requested_qos other = None"

definition last_requested_qos :: "op list \<Rightarrow> int \<times> int" where
  "last_requested_qos ops =
     (let rs = List.map_filter requested_qos ops in if rs = [] then (0, 0) else last rs)"

text \<open>Every operation a registry tracks is an allocated future.\<close>

definition tracked_allocated :: "world \<Rightarrow> bool" where
  "tracked_allocated w = list_all (\<lambda>r. list_all (\<lambda>f. f < length (futs w)) (tracked r)) (stores w)"

text \<open>
  Two channels constructed on one connection from its root registry, then any
  number of operations left pending, each on the first channel (\<open>True\<close>) or on the
  second (\<open>False\<close>).
\<close>

definition two_channels :: "world \<Rightarrow> nat \<Rightarrow> nat \<Rightarrow> bool list \<Rightarrow> world \<times> chan \<times> chan" where
  "two_channels w conn root pending =
     (let (w1, a) = init w conn root None;
          (w2, b) = init w1 conn root None;
          w3 = foldl (\<lambda>w on_a. fst (track w (if on_a then futures a else futures b))) w2 pending
      in (w3, a, b))"

text \<open>The world once steps 1 to 4 of \<^verbatim>\<open>on_reconnect\<close> are done.\<close>

definition swapped :: "world \<Rightarrow> chan \<Rightarrow> nat \<Rightarrow> int option \<Rightarrow> world" where
  "swapped w s conn number =
     log_call (Adopt conn number) None
       (reject_all
          (fst (loop_create_future
             (if \<not> future_done w (closing s)
              then set_exception w (closing s) (ConnectionError ''Auto Reconnect Error'')
              else w)))
          (futures s) (ConnectionError ''Auto Reconnect Error''))"

subsection \<open>Concrete environments and worlds\<close>

text \<open>The defaults of the signatures of \<^verbatim>\<open>declare_exchange\<close> and \<^verbatim>\<open>declare_queue\<close>.\<close>

definition default_exchange :: exchange_params where
  "default_exchange = \<lparr>ex_type = ''direct'', ex_durable = None, ex_auto_delete = False,
     ex_internal = False, ex_passive = False, ex_arguments = None, ex_timeout = None\<rparr>"

definition default_queue :: queue_params where
  "default_queue = \<lparr>qu_durable = None, qu_exclusive = False, qu_passive = False,
     qu_auto_delete = False, qu_arguments = None, qu_timeout = None\<rparr>"

text \<open>An environment in which every call returns and the decorator lets every call through.\<close>

definition calm :: env where
  "calm = \<lparr>reply = (\<lambda>t c. None),
           exchange_object = (\<lambda>t name ps. \<lparr>ent_id = length t, ent_name = name\<rparr>),
           queue_object = (\<lambda>t name ps. \<lparr>ent_id = length t,
              ent_name = (case name of Some n \<Rightarrow> n | None \<Rightarrow> ''amq.gen-1'')\<rparr>),
           handle = (\<lambda>t. length t),
           ensure_channel_is_open = (\<lambda>w s. None)\<rparr>"

text \<open>
  The same, with a decorator that takes a channel to be open as long as its current
  closing signal is unresolved and raises otherwise.
\<close>

definition strict :: env where
  "strict = calm\<lparr>ensure_channel_is_open :=
     (\<lambda>w s. if future_done w (closing s) then Some (RuntimeError ''The channel is closed'')
            else None)\<rparr>"

text \<open>An environment in which the broker refuses the second recovery hook it is asked for.\<close>

definition flaky :: env where
  "flaky = calm\<lparr>reply :=
     (\<lambda>t c. if is_hook c \<and> length (filter (\<lambda>ev. is_hook (fst ev)) t) = 1
            then Some (BrokerError 406) else None)\<rparr>"

text \<open>A connection with nothing but its root registry.\<close>

definition fresh :: world where
  "fresh = \<lparr>futs = [], stores = [\<lparr>parent = None, tracked = []\<rparr>], trace = []\<rparr>"

text \<open>An environment in which the broker refuses every QoS request.\<close>

definition refusing :: env where
  "refusing = calm\<lparr>reply :=
     (\<lambda>t c. case c of SuperSetQos p q timeout \<Rightarrow> Some (BrokerError 540) | _ \<Rightarrow> None)\<rparr>"

text \<open>
  Channels for the examples: one that has been opened and has declared an exchange
  and two queues; the same after the exchange and the first queue were deleted; and a
  channel behind the strict decorator that is opened, then closed, then reconnected.
\<close>

definition example_channel :: "world \<times> chan" where
  "example_channel = run calm (init fresh 0 0 None)
     [Initialize None, DeclareExchange ''x'' default_exchange True,
      DeclareQueue (Some ''y'') default_queue True,
      DeclareQueue (Some ''z'') default_queue True]"

definition opened_channel :: "world \<times> chan" where
  "opened_channel = run strict (init fresh 0 0 None) [Initialize None]"

definition closed_channel :: "world \<times> chan" where
  "closed_channel = run strict (init fresh 0 0 None) [Initialize None, Close]"

definition reopened_channel :: "world \<times> chan" where
  "reopened_channel = run strict (init fresh 0 0 None) [Initialize None, Close, OnReconnect 2 (Some 2)]"





text \<open>
  An environment in which the underlying handle refuses to close, and the example
  channel after a \<^verbatim>\<open>close\<close> that therefore raised (the closed flag is set, the
  closing signal is unresolved) and with one operation pending in its registry.
\<close>

definition stubborn :: env where
  "stubborn = calm\<lparr>reply :=
     (\<lambda>t c. case c of ChannelClose h \<Rightarrow> Some (BrokerError 504) | _ \<Rightarrow> None)\<rparr>"

definition half_closed_channel :: "world \<times> chan" where
  "half_closed_channel =
     (case run stubborn example_channel [Close] of
        (w, s) \<Rightarrow> (fst (track w (futures s)), s))"

text \<open>
  The two channels of a connection with one operation pending on each, and calls on
  them in turn.
\<close>

definition two_example :: "world \<times> chan list" where
  "two_example =
     (case two_channels fresh 0 0 [True, False] of (w, a, b) \<Rightarrow> (w, [a, b]))"

definition interleaved :: "(nat \<times> op) list" where
  "interleaved = [(0, OnReconnect 2 (Some 2)), (1, OnReconnect 2 (Some 3)),
     (0, SetQos 5 0 False None), (0, OnReconnect 4 (Some 2))]"

section \<open>Properties\<close>

subsection \<open>The trace of a reconnect\<close>

lemma attempt_append:
  "attempt E t (cs @ ds) =
     (case attempt E t cs of
        (es, Some e) \<Rightarrow> (es, Some e)
      | (es, None) \<Rightarrow> (case attempt E (t @ es) ds of (fs, r) \<Rightarrow> (es @ fs, r)))"
  by (induction cs arbitrary: t) (auto simp: case_prod_beta split: option.splits)

lemma attempt_prefix: "prefix (map fst (fst (attempt E t cs))) cs"
  by (induction cs arbitrary: t) (auto simp: case_prod_beta split: option.splits)

lemma attempt_returned:
  "Suc i < length (fst (attempt E t cs)) \<Longrightarrow> snd (fst (attempt E t cs) ! i) = None"
proof (induction cs arbitrary: t i)
  case Nil
  then show ?case by simp
next
  case (Cons c cs)
  show ?case
  proof (cases "reply E t c")
    case None
    with Cons show ?thesis
      by (cases i) (auto simp: case_prod_beta)
  next
    case (Some e)
    with Cons.prems show ?thesis by simp
  qed
qed

lemma attempt_raised:
  "snd (attempt E t cs) = Some e \<longleftrightarrow>
     fst (attempt E t cs) \<noteq> [] \<and> snd (last (fst (attempt E t cs))) = Some e"
  by (induction cs arbitrary: t) (auto simp: case_prod_beta split: option.splits)

lemma attempt_complete:
  "snd (attempt E t cs) = None \<Longrightarrow> fst (attempt E t cs) = map (\<lambda>c. (c, None)) cs"
  by (induction cs arbitrary: t) (auto simp: case_prod_beta split: option.splits)

lemma recover_exchanges_attempt:
  "recover_exchanges E w xs =
     (w\<lparr>trace := trace w @ fst (attempt E (trace w) (map ExchangeOnReconnect xs))\<rparr>,
      snd (attempt E (trace w) (map ExchangeOnReconnect xs)))"
  by (induction xs arbitrary: w)
     (auto simp: invoke_def log_call_def Let_def case_prod_beta split: option.splits)

lemma recover_queues_attempt:
  "recover_queues E w xs =
     (w\<lparr>trace := trace w @ fst (attempt E (trace w) (map QueueOnReconnect xs))\<rparr>,
      snd (attempt E (trace w) (map QueueOnReconnect xs)))"
  by (induction xs arbitrary: w)
     (auto simp: invoke_def log_call_def Let_def case_prod_beta split: option.splits)

lemma trace_swapped:
  "trace (swapped w s conn number) = trace w @ map (\<lambda>c. (c, None)) (swap_calls w s conn number)"
  by (simp add: swapped_def swap_calls_def reject_all_def loop_create_future_def
      set_exception_def log_call_def Let_def)

lemma set_qos_one:
  "set_qos E w s p q False t =
     (w\<lparr>trace := trace w @ [(SuperSetQos p q t, reply E (trace w) (SuperSetQos p q t))]\<rparr>,
      s\<lparr>qos := (p, q)\<rparr>,
      (case reply E (trace w) (SuperSetQos p q t) of None \<Rightarrow> Inr () | Some e \<Rightarrow> Inl e))"
  by (cases "reply E (trace w) (SuperSetQos p q t)")
     (simp_all add: set_qos_def invoke_def log_call_def Let_def)

lemma super_initialize_one:
  "super_initialize E w s =
     (w\<lparr>trace := trace w @ [(SuperInitialize, reply E (trace w) SuperInitialize)]\<rparr>,
      (if reply E (trace w) SuperInitialize = None
       then s\<lparr>channel := Some (handle E (trace w))\<rparr> else s),
      (case reply E (trace w) SuperInitialize of None \<Rightarrow> Inr () | Some e \<Rightarrow> Inl e))"
  by (cases "reply E (trace w) SuperInitialize")
     (simp_all add: super_initialize_def invoke_def log_call_def Let_def)

lemma initialize_attempt:
  "initialize E w s timeout =
     (w\<lparr>trace := trace w
          @ fst (attempt E (trace w) [SuperInitialize, SuperSetQos (fst (qos s)) (snd (qos s)) None])\<rparr>,
      (if reply E (trace w) SuperInitialize = None
       then s\<lparr>channel := Some (handle E (trace w))\<rparr> else s),
      (case snd (attempt E (trace w) [SuperInitialize, SuperSetQos (fst (qos s)) (snd (qos s)) None])
       of None \<Rightarrow> Inr () | Some e \<Rightarrow> Inl e))"
proof (cases "reply E (trace w) SuperInitialize")
  case (Some e)
  then show ?thesis
    by (simp add: initialize_def super_initialize_one)
next
  case None
  show ?thesis
  proof (cases "reply E (trace w @ [(SuperInitialize, None)])
                  (SuperSetQos (fst (qos s)) (snd (qos s)) None)")
    case None2: None
    with None show ?thesis
      by (simp add: initialize_def super_initialize_one set_qos_one case_prod_beta)
  next
    case (Some e)
    with None show ?thesis
      by (simp add: initialize_def super_initialize_one set_qos_one case_prod_beta)
  qed
qed

lemma length_futs_set_exception [simp]:
  "length (futs (set_exception w f e)) = length (futs w)"
  by (simp add: set_exception_def log_call_def)

lemma loop_create_future_pair:
  "loop_create_future w = (fst (loop_create_future w), length (futs w))"
  by (simp add: loop_create_future_def Let_def)

lemma on_reconnect_unfold:
  "on_reconnect E w s conn number =
     (case initialize E (swapped w s conn number)
             (s\<lparr>closing := length (futs w), connection := conn, channel_number := number\<rparr>) None of
        (w4, s4, Inl e) \<Rightarrow> (w4, s4, Inl e)
      | (w4, s4, Inr u) \<Rightarrow>
          (case recover_exchanges E w4 (dict_values (exchanges s4)) of
             (w5, Some e) \<Rightarrow> (w5, s4, Inl e)
           | (w5, None) \<Rightarrow>
               (case recover_queues E w5 (dict_values (queues s4)) of
                  (w6, Some e) \<Rightarrow> (w6, s4, Inl e)
                | (w6, None) \<Rightarrow> (w6, s4, Inr ()))))"
proof -
  define w1 where "w1 = (if \<not> future_done w (closing s)
           then set_exception w (closing s) (ConnectionError ''Auto Reconnect Error'')
           else w)"
  have len: "length (futs w1) = length (futs w)"
    by (simp add: w1_def)
  have pair: "loop_create_future w1 = (fst (loop_create_future w1), length (futs w))"
    using loop_create_future_pair [of w1] len by simp
  show ?thesis
    unfolding on_reconnect_def Let_def swapped_def w1_def [symmetric]
    by (subst pair) simp
qed

lemma on_reconnect_attempt:
  "on_reconnect E w s conn number =
     (swapped w s conn number\<lparr>trace := trace (swapped w s conn number) @ fst (attempt E (trace (swapped w s conn number)) (replay_calls s))\<rparr>,
      (if reply E (trace (swapped w s conn number)) SuperInitialize = None
       then s\<lparr>closing := length (futs w), connection := conn, channel_number := number,
              channel := Some (handle E (trace (swapped w s conn number)))\<rparr>
       else s\<lparr>closing := length (futs w), connection := conn, channel_number := number\<rparr>),
      (case snd (attempt E (trace (swapped w s conn number)) (replay_calls s)) of
         None \<Rightarrow> Inr () | Some e \<Rightarrow> Inl e))"
proof -
  define t where "t = trace (swapped w s conn number)"
  define ini where "ini = [SuperInitialize, SuperSetQos (fst (qos s)) (snd (qos s)) None]"
  define xs where "xs = map ExchangeOnReconnect (dict_values (exchanges s))"
  define qs where "qs = map QueueOnReconnect (dict_values (queues s))"
  have calls: "replay_calls s = ini @ xs @ qs"
    by (simp add: replay_calls_def ini_def xs_def qs_def dict_values_def comp_def)
  have ini_reply: "snd (attempt E t ini) = None \<Longrightarrow> reply E t SuperInitialize = None"
    by (simp add: ini_def split: option.splits)
  have ini_fail: "snd (attempt E t ini) = Some e \<Longrightarrow> reply E t SuperInitialize \<noteq> None
      \<Longrightarrow> fst (attempt E t ini) = [(SuperInitialize, Some e)]" for e
    by (auto simp: ini_def split: option.splits)
  show ?thesis
  proof (cases "snd (attempt E t ini)")
    case (Some e)
    then have "attempt E t (ini @ xs @ qs) = (fst (attempt E t ini), Some e)"
      by (simp add: attempt_append case_prod_beta)
    with Some show ?thesis
      unfolding on_reconnect_unfold initialize_attempt calls
      by (simp add: t_def [symmetric] ini_def [symmetric])
  next
    case ini_ok: None
    show ?thesis
    proof (cases "snd (attempt E (t @ fst (attempt E t ini)) xs)")
      case (Some e)
      with ini_ok have "attempt E t (ini @ xs @ qs)
          = (fst (attempt E t ini) @ fst (attempt E (t @ fst (attempt E t ini)) xs), Some e)"
        by (simp add: attempt_append case_prod_beta)
      with Some ini_ok ini_reply show ?thesis
        unfolding on_reconnect_unfold initialize_attempt calls
        by (simp add: t_def [symmetric] ini_def [symmetric] xs_def [symmetric]
            recover_exchanges_attempt)
    next
      case xs_ok: None
      define t2 where "t2 = t @ fst (attempt E t ini) @ fst (attempt E (t @ fst (attempt E t ini)) xs)"
      have all: "attempt E t (ini @ xs @ qs)
          = (fst (attempt E t ini) @ fst (attempt E (t @ fst (attempt E t ini)) xs)
               @ fst (attempt E t2 qs), snd (attempt E t2 qs))"
        using ini_ok xs_ok by (simp add: attempt_append case_prod_beta t2_def)
      show ?thesis
      proof (cases "snd (attempt E t2 qs)")
        case None
        with all xs_ok ini_ok ini_reply show ?thesis
          unfolding on_reconnect_unfold initialize_attempt calls
          by (simp add: t_def [symmetric] ini_def [symmetric] xs_def [symmetric]
              qs_def [symmetric] recover_exchanges_attempt recover_queues_attempt
              t2_def [symmetric])
      next
        case (Some e)
        with all xs_ok ini_ok ini_reply show ?thesis
          unfolding on_reconnect_unfold initialize_attempt calls
          by (simp add: t_def [symmetric] ini_def [symmetric] xs_def [symmetric]
              qs_def [symmetric] recover_exchanges_attempt recover_queues_attempt
              t2_def [symmetric])
      qed
    qed
  qed
qed

lemma take_returned:
  assumes "prefix (map fst es) cs" and "\<And>j. Suc j < length es \<Longrightarrow> snd (es ! j) = None"
    and "i < length es"
  shows "take i es = map (\<lambda>c. (c, None)) (take i cs)"
proof (rule nth_equalityI)
  from assms(1) have len: "length es \<le> length cs"
    by (metis length_map prefix_length_le)
  with assms(3) show "length (take i es) = length (map (\<lambda>c. (c, None)) (take i cs))"
    by simp
  fix j assume "j < length (take i es)"
  then have j: "j < i" "j < length es" by simp_all
  with assms(3) have "Suc j < length es" by simp
  then have "snd (es ! j) = None" by (rule assms(2))
  moreover from assms(1) j have "fst (es ! j) = cs ! j"
    by (metis length_map nth_map prefix_def nth_append)
  ultimately have "es ! j = (cs ! j, None)"
    by (simp add: prod_eq_iff)
  with j len show "take i es ! j = map (\<lambda>c. (c, None)) (take i cs) ! j"
    by simp
qed

lemma before_all:
  assumes "i < length (as @ bs)" and "(as @ bs) ! i \<notin> set as"
  shows "set as \<subseteq> set (take i (as @ bs))"
proof -
  from assms have "\<not> i < length as"
    by (auto simp: nth_append)
  then show ?thesis by simp
qed

lemma reconnect_events:
  "new_events w (fst (on_reconnect E w s conn number)) =
     map (\<lambda>c. (c, None)) (swap_calls w s conn number)
     @ fst (attempt E (trace (swapped w s conn number)) (replay_calls s))"
  by (simp add: on_reconnect_attempt new_events_def trace_swapped)

lemma reconnect_trace:
  "trace (fst (on_reconnect E w s conn number)) =
     trace w @ new_events w (fst (on_reconnect E w s conn number))"
  by (simp add: on_reconnect_attempt new_events_def trace_swapped)

lemma reconnect_prefix:
  "prefix (map fst (new_events w (fst (on_reconnect E w s conn number))))
     (swap_calls w s conn number @ replay_calls s)"
  by (simp add: reconnect_events comp_def attempt_prefix)

lemma reconnect_returned:
  assumes "Suc i < length (new_events w (fst (on_reconnect E w s conn number)))"
  shows "snd (new_events w (fst (on_reconnect E w s conn number)) ! i) = None"
proof (cases "i < length (swap_calls w s conn number)")
  case True
  then show ?thesis by (simp add: reconnect_events nth_append)
next
  case False
  with assms show ?thesis
    by (simp add: reconnect_events nth_append attempt_returned)
qed

lemma reconnect_result:
  "snd (snd (on_reconnect E w s conn number)) =
     (case snd (attempt E (trace (swapped w s conn number)) (replay_calls s)) of
        None \<Rightarrow> Inr () | Some e \<Rightarrow> Inl e)"
  by (simp add: on_reconnect_attempt)

text \<open>
  C6. Replay ordering. Within one \<^verbatim>\<open>on_reconnect\<close> the calls are made in the order
  swap, bulk-failure, adoption, open, QoS, exchange hooks, queue hooks, and a call is made only
  once the one before it has returned: every event but the last is a call that
  returned. So when a recovery hook runs, the open and the QoS reapplication have
  both returned; each exchange hook has returned before the next one starts; and when
  a queue hook runs, the hook of every remembered exchange has run and returned.
\<close>

theorem replay_ordering:
  "(let new = new_events w (fst (on_reconnect E w s conn number)) in
      trace (fst (on_reconnect E w s conn number)) = trace w @ new
    \<and> prefix (map fst new) (swap_calls w s conn number @ replay_calls s)
    \<and> (\<forall>i. Suc i < length new \<longrightarrow> snd (new ! i) = None)
    \<and> (\<forall>i < length new. is_hook (fst (new ! i)) \<longrightarrow>
          (SuperInitialize, None) \<in> set (take i new)
        \<and> (SuperSetQos (fst (qos s)) (snd (qos s)) None, None) \<in> set (take i new))
    \<and> (\<forall>i < length new. \<forall>q. fst (new ! i) = QueueOnReconnect q \<longrightarrow>
          (\<forall>x \<in> snd ` set (exchanges s).
             (ExchangeOnReconnect x, None) \<in> set (take i new))))"
proof -
  define new where "new = new_events w (fst (on_reconnect E w s conn number))"
  define full where "full = swap_calls w s conn number @ replay_calls s"
  have pre: "prefix (map fst new) full"
    unfolding new_def full_def by (rule reconnect_prefix)
  have ret: "Suc j < length new \<Longrightarrow> snd (new ! j) = None" for j
    unfolding new_def by (rule reconnect_returned)
  have tk: "take i new = map (\<lambda>c. (c, None)) (take i full)" if "i < length new" for i
    using pre ret that by (rule take_returned)
  have at: "fst (new ! i) = full ! i" and in_full: "i < length full" if "i < length new" for i
  proof -
    from pre obtain zs where "full = map fst new @ zs" by (auto simp: prefix_def)
    with that show "fst (new ! i) = full ! i" "i < length full"
      by (simp_all add: nth_append)
  qed
  have no_hook: "\<not> is_hook c" if "c \<in> set (swap_calls w s conn number @ [SuperInitialize,
      SuperSetQos (fst (qos s)) (snd (qos s)) None])" for c
    using that by (auto simp: swap_calls_def split: if_splits)
  have hooks: "(SuperInitialize, None) \<in> set (take i new)
      \<and> (SuperSetQos (fst (qos s)) (snd (qos s)) None, None) \<in> set (take i new)"
    if i: "i < length new" and h: "is_hook (fst (new ! i))" for i
  proof -
    let ?as = "swap_calls w s conn number @ [SuperInitialize, SuperSetQos (fst (qos s)) (snd (qos s)) None]"
    let ?bs = "map (\<lambda>entry. ExchangeOnReconnect (snd entry)) (exchanges s)
       @ map (\<lambda>entry. QueueOnReconnect (snd entry)) (queues s)"
    have split: "full = ?as @ ?bs"
      by (simp add: full_def replay_calls_def)
    from h i have "full ! i \<notin> set ?as"
      using no_hook at by metis
    with in_full [OF i] have "set ?as \<subseteq> set (take i full)"
      unfolding split by (rule before_all)
    then show ?thesis
      by (auto simp: tk [OF i])
  qed
  have queues_last: "(ExchangeOnReconnect x, None) \<in> set (take i new)"
    if i: "i < length new" and h: "fst (new ! i) = QueueOnReconnect q"
      and x: "x \<in> snd ` set (exchanges s)" for i q x
  proof -
    let ?as = "swap_calls w s conn number @ [SuperInitialize, SuperSetQos (fst (qos s)) (snd (qos s)) None]
       @ map (\<lambda>entry. ExchangeOnReconnect (snd entry)) (exchanges s)"
    let ?bs = "map (\<lambda>entry. QueueOnReconnect (snd entry)) (queues s)"
    have split: "full = ?as @ ?bs"
      by (simp add: full_def replay_calls_def)
    have "QueueOnReconnect q \<notin> set ?as"
      by (auto simp: swap_calls_def)
    with h i have "full ! i \<notin> set ?as"
      using at by metis
    with in_full [OF i] have "set ?as \<subseteq> set (take i full)"
      unfolding split by (rule before_all)
    moreover from x have "ExchangeOnReconnect x \<in> set ?as"
      by auto
    ultimately have "ExchangeOnReconnect x \<in> set (take i full)"
      by blast
    then show ?thesis
      by (auto simp: tk [OF i])
  qed
  show ?thesis
    unfolding Let_def new_def [symmetric] full_def [symmetric]
    using pre ret hooks queues_last reconnect_trace [of E w s conn number]
    by (simp add: new_def) 
qed

text \<open>
  C6 on the example channel, with every call returning.
\<close>

theorem replay_ordering_witness:
  "new_events (fst example_channel)
      (fst (on_reconnect calm (fst example_channel) (snd example_channel) 2 (Some 2)))
     = [(SetException 0 (ConnectionError ''Auto Reconnect Error''), None),
        (CreateFuture 1, None),
        (RejectAll 1 (ConnectionError ''Auto Reconnect Error''), None),
        (Adopt 2 (Some 2), None),
        (SuperInitialize, None), (SuperSetQos 0 0 None, None),
        (ExchangeOnReconnect \<lparr>ent_id = 3, ent_name = ''x''\<rparr>, None),
        (QueueOnReconnect \<lparr>ent_id = 4, ent_name = ''y''\<rparr>, None),
        (QueueOnReconnect \<lparr>ent_id = 5, ent_name = ''z''\<rparr>, None)]
   \<and> (SuperInitialize, None) \<in> set (take 6 (new_events (fst example_channel)
         (fst (on_reconnect calm (fst example_channel) (snd example_channel) 2 (Some 2)))))
   \<and> (SuperSetQos 0 0 None, None) \<in> set (take 6 (new_events (fst example_channel)
         (fst (on_reconnect calm (fst example_channel) (snd example_channel) 2 (Some 2)))))
   \<and> (ExchangeOnReconnect \<lparr>ent_id = 3, ent_name = ''x''\<rparr>, None)
       \<in> set (take 7 (new_events (fst example_channel)
         (fst (on_reconnect calm (fst example_channel) (snd example_channel) 2 (Some 2)))))"
proof -
  let ?new = "new_events (fst example_channel)
      (fst (on_reconnect calm (fst example_channel) (snd example_channel) 2 (Some 2)))"
  have ev: "?new
     = [(SetException 0 (ConnectionError ''Auto Reconnect Error''), None),
        (CreateFuture 1, None),
        (RejectAll 1 (ConnectionError ''Auto Reconnect Error''), None),
        (Adopt 2 (Some 2), None),
        (SuperInitialize, None), (SuperSetQos 0 0 None, None),
        (ExchangeOnReconnect \<lparr>ent_id = 3, ent_name = ''x''\<rparr>, None),
        (QueueOnReconnect \<lparr>ent_id = 4, ent_name = ''y''\<rparr>, None),
        (QueueOnReconnect \<lparr>ent_id = 5, ent_name = ''z''\<rparr>, None)]"
    by code_simp
  have x: "exchanges (snd example_channel) = [(''x'', \<lparr>ent_id = 3, ent_name = ''x''\<rparr>)]"
    by code_simp
  have q: "qos (snd example_channel) = (0, 0)"
    by code_simp
  note r = replay_ordering [where E = calm and w = "fst example_channel"
      and s = "snd example_channel" and conn = 2 and number = "Some 2", unfolded Let_def]
  have six: "6 < length ?new" "is_hook (fst (?new ! 6))"
    and seven: "7 < length ?new"
      "fst (?new ! 7) = QueueOnReconnect \<lparr>ent_id = 4, ent_name = ''y''\<rparr>"
    by (simp_all add: ev)
  from r six have a: "(SuperInitialize, None) \<in> set (take 6 ?new)
      \<and> (SuperSetQos (fst (qos (snd example_channel))) (snd (qos (snd example_channel))) None, None)
          \<in> set (take 6 ?new)"
    by blast
  from r seven have b: "\<forall>x \<in> snd ` set (exchanges (snd example_channel)).
      (ExchangeOnReconnect x, None) \<in> set (take 7 ?new)"
    by blast
  from b have "(ExchangeOnReconnect \<lparr>ent_id = 3, ent_name = ''x''\<rparr>, None) \<in> set (take 7 ?new)"
    by (simp add: x)
  with a ev show ?thesis
    by (simp add: q)
qed

text \<open>
  C8. Reconnect failure propagation. If any call of the replay (the open, the QoS
  reapplication or an entity's recovery hook) raises, it is the last call
  \<^verbatim>\<open>on_reconnect\<close> makes, and \<^verbatim>\<open>on_reconnect\<close> raises that very error; an error
  raised by \<^verbatim>\<open>on_reconnect\<close> is the one its last call raised. The calls made are an
  initial part of the replay order, so no hook later in that order is invoked; only
  when nothing raised has the whole order been run.
\<close>

theorem reconnect_fails_fast:
  "(let new = new_events w (fst (on_reconnect E w s conn number));
        r = snd (snd (on_reconnect E w s conn number)) in
      (\<forall>i < length new. \<forall>e. snd (new ! i) = Some e \<longrightarrow> Suc i = length new \<and> r = Inl e)
    \<and> (\<forall>e. r = Inl e \<longrightarrow> new \<noteq> [] \<and> snd (last new) = Some e)
    \<and> prefix (map fst new) (swap_calls w s conn number @ replay_calls s)
    \<and> (r = Inr () \<longrightarrow> map fst new = swap_calls w s conn number @ replay_calls s))"
proof -
  define new where "new = new_events w (fst (on_reconnect E w s conn number))"
  define r where "r = snd (snd (on_reconnect E w s conn number))"
  define a where "a = attempt E (trace (swapped w s conn number)) (replay_calls s)"
  have new: "new = map (\<lambda>c. (c, None)) (swap_calls w s conn number) @ fst a"
    unfolding new_def a_def by (rule reconnect_events)
  have r: "r = (case snd a of None \<Rightarrow> Inr () | Some e \<Rightarrow> Inl e)"
    unfolding r_def a_def by (rule reconnect_result)
  have raised: "snd a = Some e \<longleftrightarrow> fst a \<noteq> [] \<and> snd (last (fst a)) = Some e" for e
    unfolding a_def by (rule attempt_raised)
  have first: "Suc i = length new \<and> r = Inl e"
    if i: "i < length new" and e: "snd (new ! i) = Some e" for i e
  proof -
    have "\<not> Suc i < length new"
      using e reconnect_returned [of i w E s conn number] by (auto simp: new_def)
    with i have last: "Suc i = length new" by simp
    from e have "\<not> i < length (swap_calls w s conn number)"
      by (auto simp: new nth_append)
    with i have ne: "fst a \<noteq> []"
      by (auto simp: new)
    from last have "new ! i = last new"
      by (metis diff_Suc_1 i last_conv_nth length_greater_0_conv gr_implies_not0 list.size(3))
    with ne e have "snd (last (fst a)) = Some e"
      by (simp add: new)
    with ne have "snd a = Some e" by (simp add: raised)
    with last show ?thesis by (simp add: r)
  qed
  have second: "new \<noteq> [] \<and> snd (last new) = Some e" if "r = Inl e" for e
  proof -
    from that have "snd a = Some e"
      by (auto simp: r split: option.splits)
    then show ?thesis by (simp add: raised new)
  qed
  have third: "map fst new = swap_calls w s conn number @ replay_calls s" if "r = Inr ()"
  proof -
    from that have "snd a = None"
      by (auto simp: r split: option.splits)
    then have "fst a = map (\<lambda>c. (c, None)) (replay_calls s)"
      unfolding a_def by (rule attempt_complete)
    then show ?thesis by (simp add: new comp_def)
  qed
  show ?thesis
    unfolding Let_def new_def [symmetric] r_def [symmetric]
    using first second third reconnect_prefix [of w E s conn number]
    by (simp add: new_def)
qed

text \<open>
  C8 on the example channel, with a broker that refuses the second hook: the hook
  of queue \<open>y\<close> raises, \<^verbatim>\<open>on_reconnect\<close> raises the same error, and the hook of
  queue \<open>z\<close> is not run.
\<close>

theorem reconnect_fails_fast_witness:
  "new_events (fst example_channel)
      (fst (on_reconnect flaky (fst example_channel) (snd example_channel) 2 (Some 2)))
     = [(SetException 0 (ConnectionError ''Auto Reconnect Error''), None),
        (CreateFuture 1, None),
        (RejectAll 1 (ConnectionError ''Auto Reconnect Error''), None),
        (Adopt 2 (Some 2), None),
        (SuperInitialize, None), (SuperSetQos 0 0 None, None),
        (ExchangeOnReconnect \<lparr>ent_id = 3, ent_name = ''x''\<rparr>, None),
        (QueueOnReconnect \<lparr>ent_id = 4, ent_name = ''y''\<rparr>, Some (BrokerError 406))]
   \<and> snd (snd (on_reconnect flaky (fst example_channel) (snd example_channel) 2 (Some 2)))
     = Inl (BrokerError 406)
   \<and> map snd (queues (snd example_channel))
     = [\<lparr>ent_id = 4, ent_name = ''y''\<rparr>, \<lparr>ent_id = 5, ent_name = ''z''\<rparr>]"
proof -
  let ?R = "on_reconnect flaky (fst example_channel) (snd example_channel) 2 (Some 2)"
  let ?new = "new_events (fst example_channel) (fst ?R)"
  have ev: "?new
     = [(SetException 0 (ConnectionError ''Auto Reconnect Error''), None),
        (CreateFuture 1, None),
        (RejectAll 1 (ConnectionError ''Auto Reconnect Error''), None),
        (Adopt 2 (Some 2), None),
        (SuperInitialize, None), (SuperSetQos 0 0 None, None),
        (ExchangeOnReconnect \<lparr>ent_id = 3, ent_name = ''x''\<rparr>, None),
        (QueueOnReconnect \<lparr>ent_id = 4, ent_name = ''y''\<rparr>, Some (BrokerError 406))]"
    by code_simp
  have qs: "map snd (queues (snd example_channel))
     = [\<lparr>ent_id = 4, ent_name = ''y''\<rparr>, \<lparr>ent_id = 5, ent_name = ''z''\<rparr>]"
    by code_simp
  note r = reconnect_fails_fast [where E = flaky and w = "fst example_channel"
      and s = "snd example_channel" and conn = 2 and number = "Some 2", unfolded Let_def]
  have "7 < length ?new" "snd (?new ! 7) = Some (BrokerError 406)"
    by (simp_all add: ev)
  with r have "snd (snd ?R) = Inl (BrokerError 406)"
    by blast
  with ev qs show ?thesis
    by simp
qed

lemma swapped_closed [simp]: "swapped w (s\<lparr>closed := b\<rparr>) conn number = swapped w s conn number"
  by (simp add: swapped_def)

lemma replay_calls_closed [simp]: "replay_calls (s\<lparr>closed := b\<rparr>) = replay_calls s"
  by (simp add: replay_calls_def)

subsection \<open>Rejecting QoS for all channels\<close>

text \<open>
  C4. All-channels QoS rejection: \<^verbatim>\<open>set_qos\<close> with \<^verbatim>\<open>all_channels\<close> true raises the
  unsupported-operation error, makes no call to the base primitive (the trace and
  the rest of the world are as before) and leaves the channel, its stored QoS pair
  included, exactly as it was.
\<close>

theorem set_qos_all_channels_rejected:
  "set_qos E w s p q True timeout =
     (w, s, Inl (NotImplementedError ''Not available to RobustConnection''))"
  by (simp add: set_qos_def)

subsection \<open>The recovery maps\<close>




lemma declare_exchange_cases:
  "declare_exchange E w s name ps robust =
     (case reply E (trace w) (SuperDeclareExchange name ps) of
        Some e \<Rightarrow> (log_call (SuperDeclareExchange name ps) (Some e) w, s, Inl e)
      | None \<Rightarrow>
          (log_call (SuperDeclareExchange name ps) None w,
           (if \<not> ex_internal ps \<and> robust
            then s\<lparr>exchanges := dict_setitem name (exchange_object E (trace w) name ps) (exchanges s)\<rparr>
            else s),
           Inr (exchange_object E (trace w) name ps)))"
  by (simp add: declare_exchange_def invoke_def Let_def split: option.splits)

lemma declare_queue_cases:
  "declare_queue E w s name ps robust =
     (case reply E (trace w) (SuperDeclareQueue name ps) of
        Some e \<Rightarrow> (log_call (SuperDeclareQueue name ps) (Some e) w, s, Inl e)
      | None \<Rightarrow>
          (log_call (SuperDeclareQueue name ps) None w,
           (if robust
            then s\<lparr>queues := dict_setitem name (queue_object E (trace w) name ps) (queues s)\<rparr>
            else s),
           Inr (queue_object E (trace w) name ps)))"
  by (simp add: declare_queue_def invoke_def Let_def split: option.splits)

lemma exchange_delete_cases:
  "exchange_delete E w s name timeout if_unused nowait =
     (case reply E (trace w) (SuperExchangeDelete name timeout if_unused nowait) of
        Some e \<Rightarrow> (log_call (SuperExchangeDelete name timeout if_unused nowait) (Some e) w, s, Inl e)
      | None \<Rightarrow>
          (log_call (SuperExchangeDelete name timeout if_unused nowait) None w,
           s\<lparr>exchanges := dict_pop name (exchanges s)\<rparr>, Inr ()))"
  by (simp add: exchange_delete_def invoke_def Let_def split: option.splits)

lemma queue_delete_cases:
  "queue_delete E w s name timeout if_unused if_empty nowait =
     (case reply E (trace w) (SuperQueueDelete name timeout if_unused if_empty nowait) of
        Some e \<Rightarrow>
          (log_call (SuperQueueDelete name timeout if_unused if_empty nowait) (Some e) w, s, Inl e)
      | None \<Rightarrow>
          (log_call (SuperQueueDelete name timeout if_unused if_empty nowait) None w,
           s\<lparr>queues := dict_pop (Some name) (queues s)\<rparr>, Inr ()))"
  by (simp add: queue_delete_def invoke_def Let_def split: option.splits)




lemma reconnect_calls:
  "fst ` set (new_events w (fst (on_reconnect E w s conn number)))
     \<subseteq> set (swap_calls w s conn number @ replay_calls s)"
  using set_mono_prefix [OF reconnect_prefix [of w E s conn number]] by simp







subsection \<open>The closed flag and the stored QoS pair\<close>

lemma close_body:
  "ensure_channel_is_open E w s = None \<Longrightarrow> \<not> closed s \<Longrightarrow>
     closed (fst (snd (close E w s))) \<and> qos (fst (snd (close E w s))) = qos s"
  by (simp add: close_def Let_def case_prod_beta split: option.splits)

lemma close_fields:
  "(closed s \<longrightarrow> closed (fst (snd (close E w s)))) \<and> qos (fst (snd (close E w s))) = qos s"
proof (cases "ensure_channel_is_open E w s")
  case (Some e)
  then show ?thesis by (simp add: close_def)
next
  case None
  then show ?thesis
    by (cases "closed s") (simp_all add: close_body, simp add: close_def)
qed

lemma close_returned:
  assumes "close E w s = (w1, s1, Inr ())"
  shows "closed s1"
proof (cases "ensure_channel_is_open E w s")
  case (Some e)
  with assms show ?thesis by (simp add: close_def)
next
  case None
  show ?thesis
  proof (cases "closed s")
    case True
    with None assms show ?thesis by (simp add: close_def)
  next
    case False
    with None have "closed (fst (snd (close E w s)))"
      by (simp add: close_body)
    with assms show ?thesis by simp
  qed
qed

lemma set_qos_fields:
  "closed (fst (snd (set_qos E w s p q a t))) = closed s
   \<and> qos (fst (snd (set_qos E w s p q a t))) = (if a then qos s else (p, q))"
  by (cases a) (simp_all add: set_qos_one, simp add: set_qos_def)

lemma step_fields:
  "(closed s \<longrightarrow> closed (snd (step E (w, s) c)))
   \<and> qos (snd (step E (w, s) c)) = (case requested_qos c of Some pq \<Rightarrow> pq | None \<Rightarrow> qos s)"
proof (cases c)
  case (OnReconnect conn number)
  then show ?thesis
    by (simp add: case_prod_beta on_reconnect_attempt)
next
  case (Initialize timeout)
  then show ?thesis
    by (simp add: case_prod_beta initialize_attempt)
next
  case (SetQos p q a t)
  then show ?thesis
    using set_qos_fields [of E w s p q a t] by (simp add: case_prod_beta)
next
  case Close
  then show ?thesis
    using close_fields [of s E w] by (simp add: case_prod_beta)
next
  case (DeclareExchange name ps robust)
  then show ?thesis
    by (simp add: case_prod_beta declare_exchange_cases split: option.splits)
next
  case (ExchangeDelete name timeout if_unused nowait)
  then show ?thesis
    by (simp add: case_prod_beta exchange_delete_cases split: option.splits)
next
  case (DeclareQueue name ps robust)
  then show ?thesis
    by (simp add: case_prod_beta declare_queue_cases split: option.splits)
next
  case (QueueDelete name timeout if_unused if_empty nowait)
  then show ?thesis
    by (simp add: case_prod_beta queue_delete_cases split: option.splits)
qed

lemma run_snoc: "run E ws (cs @ [c]) = step E (run E ws cs) c"
  by (simp add: run_def)

lemma run_closed: "closed (snd ws) \<Longrightarrow> closed (snd (run E ws cs))"
proof (induction cs rule: rev_induct)
  case Nil
  then show ?case by (simp add: run_def)
next
  case (snoc c cs)
  then show ?case
    using step_fields [of "snd (run E ws cs)" E "fst (run E ws cs)" c]
    by (simp add: run_snoc)
qed

lemma run_qos:
  "qos (snd (run E ws cs)) =
     (if List.map_filter requested_qos cs = [] then qos (snd ws)
      else last (List.map_filter requested_qos cs))"
proof (induction cs rule: rev_induct)
  case Nil
  then show ?case by (simp add: run_def List.map_filter_def)
next
  case (snoc c cs)
  have "qos (snd (run E ws (cs @ [c]))) =
      (case requested_qos c of Some pq \<Rightarrow> pq | None \<Rightarrow> qos (snd (run E ws cs)))"
    using step_fields [of "snd (run E ws cs)" E "fst (run E ws cs)" c]
    by (simp add: run_snoc)
  with snoc show ?case
    by (auto simp: List.map_filter_def split: option.splits)
qed

lemma init_fields: "qos (snd (init w conn store number)) = (0, 0)"
  by (simp add: init_def case_prod_beta Let_def)

text \<open>
  C2, as amended. Once a \<^verbatim>\<open>close\<close> has completed, the closed flag is set and stays
  set through every sequence of calls on the channel; a further \<^verbatim>\<open>close\<close> then makes
  no request to the underlying handle and changes neither the world nor the channel.
  It returns without error when the decorator lets the call through; the decorator
  runs before the closed-flag check, and when it refuses the call its error is raised.
\<close>

theorem second_close_is_absorbed:
  assumes "close E w s = (w1, s1, Inr ())" and "run E (w1, s1) cs = (w2, s2)"
  shows "closed s2
    \<and> close E w2 s2 =
        (w2, s2, (case ensure_channel_is_open E w2 s2 of None \<Rightarrow> Inr () | Some e \<Rightarrow> Inl e))"
proof -
  from assms(1) have "closed s1" by (rule close_returned)
  then have "closed (snd (run E (w1, s1) cs))" by (simp add: run_closed)
  with assms(2) have "closed s2" by simp
  then show ?thesis
    by (simp add: close_def split: option.splits)
qed

text \<open>
  C2 as stated fails when the decorator takes a channel whose closing signal has
  resolved to be closed: the first \<^verbatim>\<open>close\<close> completes, and the second \<^verbatim>\<open>close\<close>
  raises.
\<close>

theorem second_close_raises:
  "snd (snd (close strict (fst opened_channel) (snd opened_channel))) = Inr ()
   \<and> (fst (close strict (fst opened_channel) (snd opened_channel)),
      fst (snd (close strict (fst opened_channel) (snd opened_channel)))) = closed_channel
   \<and> snd (snd (close strict (fst closed_channel) (snd closed_channel)))
       = Inl (RuntimeError ''The channel is closed'')"
  by code_simp

text \<open>
  The amended C2 under the same decorator, with a reconnect between the two calls:
  the channel has a new closing signal, the decorator lets the second call through,
  and the closed flag turns it into a no-op.
\<close>

theorem second_close_is_absorbed_witness:
  "close strict (fst opened_channel) (snd opened_channel)
     = (fst closed_channel, snd closed_channel, Inr ())
   \<and> run strict (fst closed_channel, snd closed_channel) [OnReconnect 2 (Some 2)]
     = (fst reopened_channel, snd reopened_channel)
   \<and> closed (snd reopened_channel)
   \<and> close strict (fst reopened_channel) (snd reopened_channel)
     = (fst reopened_channel, snd reopened_channel, Inr ())"
proof -
  have first: "close strict (fst opened_channel) (snd opened_channel)
      = (fst closed_channel, snd closed_channel, Inr ())"
    by code_simp
  have between: "run strict (fst closed_channel, snd closed_channel) [OnReconnect 2 (Some 2)]
      = (fst reopened_channel, snd reopened_channel)"
    by code_simp
  have guard: "ensure_channel_is_open strict (fst reopened_channel) (snd reopened_channel) = None"
    by code_simp
  from second_close_is_absorbed [OF first between] guard first between show ?thesis
    by simp
qed

text \<open>
  C3. QoS persistence. After any sequence of calls on a newly constructed channel,
  whether or not they succeeded, the stored pair is the last pair asked for by a
  \<^verbatim>\<open>set_qos\<close> with \<^verbatim>\<open>all_channels\<close> false, and \<open>(0, 0)\<close> if there was none. A
  reconnect then makes no QoS request to the base class but for that pair, with no
  timeout, and makes that request whenever the re-open returned. \<^verbatim>\<open>set_qos\<close> stores
  the pair whatever the base primitive then does.
\<close>

theorem qos_is_replayed:
  "(let ws = run E (init w conn store number) cs;
        new = new_events (fst ws) (fst (on_reconnect E' (fst ws) (snd ws) conn' number')) in
      qos (snd ws) = last_requested_qos cs
    \<and> (\<forall>p q t r. (SuperSetQos p q t, r) \<in> set new \<longrightarrow> (p, q) = last_requested_qos cs \<and> t = None)
    \<and> ((SuperInitialize, None) \<in> set new \<longrightarrow>
          SuperSetQos (fst (last_requested_qos cs)) (snd (last_requested_qos cs)) None
            \<in> fst ` set new))
   \<and> qos (fst (snd (set_qos E w0 s0 p0 q0 False t0))) = (p0, q0)"
proof -
  define ws where "ws = run E (init w conn store number) cs"
  define new where "new = new_events (fst ws) (fst (on_reconnect E' (fst ws) (snd ws) conn' number'))"
  have stored: "qos (snd ws) = last_requested_qos cs"
    by (simp add: ws_def run_qos init_fields last_requested_qos_def Let_def)
  have only: "(p, q) = last_requested_qos cs \<and> t = None"
    if "(SuperSetQos p q t, r) \<in> set new" for p q t r
  proof -
    from that have "SuperSetQos p q t \<in> fst ` set new" by force
    with reconnect_calls [of "fst ws" E' "snd ws" conn' number']
    have "SuperSetQos p q t \<in> set (swap_calls (fst ws) (snd ws) conn' number' @ replay_calls (snd ws))"
      unfolding new_def by blast
    then show ?thesis
      by (auto simp: swap_calls_def replay_calls_def stored [symmetric] split: if_splits)
  qed
  have applied: "SuperSetQos (fst (last_requested_qos cs)) (snd (last_requested_qos cs)) None
      \<in> fst ` set new" if "(SuperInitialize, None) \<in> set new"
  proof -
    define t where "t = trace (swapped (fst ws) (snd ws) conn' number')"
    have new: "new = map (\<lambda>c. (c, None)) (swap_calls (fst ws) (snd ws) conn' number')
        @ fst (attempt E' t (replay_calls (snd ws)))"
      unfolding new_def t_def by (rule reconnect_events)
    from that have "reply E' t SuperInitialize = None"
      by (auto simp: new swap_calls_def replay_calls_def case_prod_beta
          split: if_splits option.splits)
    then show ?thesis
      by (auto simp: new replay_calls_def stored case_prod_beta image_Un split: option.splits)
  qed
  show ?thesis
    unfolding Let_def ws_def [symmetric] new_def [symmetric]
    using stored only applied by (simp add: set_qos_one)
qed

text \<open>
  C3 with a broker that refuses every QoS request: the last pair asked for on this
  channel alone is stored and replayed all the same, and a channel that was never
  asked for a pair keeps \<open>(0, 0)\<close>.
\<close>

theorem qos_is_replayed_witness:
  "last_requested_qos [SetQos 10 0 False None, SetQos 1 0 True None, SetQos 5 2 False None] = (5, 2)
   \<and> qos (snd (run refusing (init fresh 0 0 None)
        [SetQos 10 0 False None, SetQos 1 0 True None, SetQos 5 2 False None])) = (5, 2)
   \<and> (SuperInitialize, None) \<in> set (new_events
        (fst (run refusing (init fresh 0 0 None)
           [SetQos 10 0 False None, SetQos 1 0 True None, SetQos 5 2 False None]))
        (fst (on_reconnect calm
           (fst (run refusing (init fresh 0 0 None)
              [SetQos 10 0 False None, SetQos 1 0 True None, SetQos 5 2 False None]))
           (snd (run refusing (init fresh 0 0 None)
              [SetQos 10 0 False None, SetQos 1 0 True None, SetQos 5 2 False None]))
           2 (Some 2))))
   \<and> SuperSetQos 5 2 None \<in> fst ` set (new_events
        (fst (run refusing (init fresh 0 0 None)
           [SetQos 10 0 False None, SetQos 1 0 True None, SetQos 5 2 False None]))
        (fst (on_reconnect calm
           (fst (run refusing (init fresh 0 0 None)
              [SetQos 10 0 False None, SetQos 1 0 True None, SetQos 5 2 False None]))
           (snd (run refusing (init fresh 0 0 None)
              [SetQos 10 0 False None, SetQos 1 0 True None, SetQos 5 2 False None]))
           2 (Some 2))))
   \<and> qos (snd (run calm (init fresh 0 0 None) [Initialize None, Close])) = (0, 0)
   \<and> last_requested_qos [Initialize None, Close] = (0, 0)"
proof -
  let ?cs = "[SetQos 10 0 False None, SetQos 1 0 True None, SetQos 5 2 False None]"
  let ?ws = "run refusing (init fresh 0 0 None) ?cs"
  let ?new = "new_events (fst ?ws) (fst (on_reconnect calm (fst ?ws) (snd ?ws) 2 (Some 2)))"
  have last: "last_requested_qos ?cs = (5, 2)"
    by code_simp
  have none: "last_requested_qos [Initialize None, Close] = (0, 0)"
    by code_simp
  have opened: "(SuperInitialize, None) \<in> set ?new"
    by code_simp
  note r = qos_is_replayed [where E = refusing and E' = calm and w = fresh and conn = 0
      and store = 0 and number = None and cs = ?cs and conn' = 2 and number' = "Some 2",
      unfolded Let_def last]
  note d = qos_is_replayed [where E = calm and w = fresh and conn = 0
      and store = 0 and number = None and cs = "[Initialize None, Close]",
      unfolded Let_def none]
  from r opened have "SuperSetQos 5 2 None \<in> fst ` set ?new" by simp
  with r d opened last none show ?thesis
    by simp
qed

subsection \<open>The closing signal\<close>

lemma length_reject_future [simp]: "length (reject_future e fs f) = length fs"
  by (simp add: reject_future_def)

lemma length_reject_all [simp]: "length (foldl (reject_future e) fs ms) = length fs"
  by (induction ms arbitrary: fs) simp_all

lemma nth_reject_future:
  "i < length fs \<Longrightarrow>
     reject_future e fs f ! i = (if i = f \<and> fs ! i = Pending then Exception e else fs ! i)"
  by (auto simp: reject_future_def)

lemma nth_reject_all:
  "i < length fs \<Longrightarrow>
     foldl (reject_future e) fs ms ! i =
       (if i \<in> set ms \<and> fs ! i = Pending then Exception e else fs ! i)"
proof (induction ms arbitrary: fs)
  case Nil
  then show ?case by simp
next
  case (Cons m ms)
  then show ?case
    by (simp add: nth_reject_future)
qed

lemma futs_swapped:
  "futs (swapped w s conn number) =
     (if futures s < length (stores w)
      then foldl (reject_future (ConnectionError ''Auto Reconnect Error''))
             ((if future_done w (closing s) then futs w
               else (futs w)[closing s := Exception (ConnectionError ''Auto Reconnect Error'')])
              @ [Pending])
             (tracked (stores w ! futures s))
      else (if future_done w (closing s) then futs w
            else (futs w)[closing s := Exception (ConnectionError ''Auto Reconnect Error'')])
           @ [Pending])"
  by (simp add: swapped_def reject_all_def loop_create_future_def set_exception_def
      log_call_def Let_def)

lemma stores_swapped:
  "stores (swapped w s conn number) =
     (if futures s < length (stores w)
      then (stores w)[futures s := (stores w ! futures s)\<lparr>tracked := []\<rparr>]
      else stores w)"
  by (simp add: swapped_def reject_all_def loop_create_future_def set_exception_def
      log_call_def Let_def)

lemma world_reconnect:
  "futs (fst (on_reconnect E w s conn number)) = futs (swapped w s conn number)"
  "stores (fst (on_reconnect E w s conn number)) = stores (swapped w s conn number)"
  "closing (fst (snd (on_reconnect E w s conn number))) = length (futs w)"
  "futures (fst (snd (on_reconnect E w s conn number))) = futures s"
  "connection (fst (snd (on_reconnect E w s conn number))) = conn"
  "channel_number (fst (snd (on_reconnect E w s conn number))) = number"
  "closed (fst (snd (on_reconnect E w s conn number))) = closed s"
  "exchanges (fst (snd (on_reconnect E w s conn number))) = exchanges s"
  "queues (fst (snd (on_reconnect E w s conn number))) = queues s"
  by (simp_all add: on_reconnect_attempt)

lemma length_futs_swapped [simp]:
  "length (futs (swapped w s conn number)) = Suc (length (futs w))"
  by (simp add: futs_swapped)

lemma future_state_futs: "futs w' = futs w \<Longrightarrow> future_state w' f = future_state w f"
  by (simp add: future_state_def)

text \<open>What a reconnect does to a future that was allocated before it.\<close>

lemma old_future_swapped:
  assumes "f < length (futs w)"
  shows "future_state (swapped w s conn number) f =
     (if future_state w f = Pending
         \<and> (f = closing s
            \<or> (futures s < length (stores w) \<and> f \<in> set (tracked (stores w ! futures s))))
      then Exception (ConnectionError ''Auto Reconnect Error'')
      else future_state w f)"
  using assms
  by (auto simp: future_state_def futs_swapped nth_reject_all nth_append future_done_def
      nth_list_update)

lemma old_future_reconnect:
  assumes "f < length (futs w)"
  shows "future_state (fst (on_reconnect E w s conn number)) f =
     (if future_state w f = Pending
         \<and> (f = closing s
            \<or> (futures s < length (stores w) \<and> f \<in> set (tracked (stores w ! futures s))))
      then Exception (ConnectionError ''Auto Reconnect Error'')
      else future_state w f)"
proof -
  have "future_state (fst (on_reconnect E w s conn number)) f
      = future_state (swapped w s conn number) f"
    by (rule future_state_futs) (simp add: world_reconnect)
  with assms show ?thesis
    by (simp add: old_future_swapped)
qed

lemma new_future_swapped:
  assumes "futures s < length (stores w) \<longrightarrow> length (futs w) \<notin> set (tracked (stores w ! futures s))"
  shows "future_state (swapped w s conn number) (length (futs w)) = Pending"
  using assms
  by (auto simp: future_state_def futs_swapped nth_reject_all nth_append)

lemma tracked_allocated_iff:
  "tracked_allocated w \<longleftrightarrow>
     (\<forall>r \<in> set (stores w). \<forall>f \<in> set (tracked r). f < length (futs w))"
  by (simp add: tracked_allocated_def list_all_iff)

lemma new_future_reconnect:
  assumes "tracked_allocated w"
  shows "future_state (fst (on_reconnect E w s conn number)) (length (futs w)) = Pending"
proof -
  from assms have "futures s < length (stores w) \<longrightarrow>
      length (futs w) \<notin> set (tracked (stores w ! futures s))"
    by (auto simp: tracked_allocated_iff dest: nth_mem)
  then have "future_state (swapped w s conn number) (length (futs w)) = Pending"
    by (rule new_future_swapped)
  moreover have "future_state (fst (on_reconnect E w s conn number)) (length (futs w))
      = future_state (swapped w s conn number) (length (futs w))"
    by (rule future_state_futs) (simp add: world_reconnect)
  ultimately show ?thesis by simp
qed

text \<open>A future that is resolved stays as it is, whatever is called on whatever channel.\<close>

lemma resolved_unallocated: "future_state w f \<noteq> Pending \<Longrightarrow> f < length (futs w)"
  by (auto simp: future_state_def split: if_splits)

lemma await_future_world:
  "stores (fst (await_future E w f)) = stores w
   \<and> length (futs (fst (await_future E w f))) = length (futs w)
   \<and> (\<forall>g. future_state w g \<noteq> Pending \<longrightarrow>
          future_state (fst (await_future E w f)) g = future_state w g)"
proof (cases "future_state w f")
  case Pending
  have keep: "future_state (log_call c r (w\<lparr>futs := (futs w)[f := v]\<rparr>)) g = future_state w g"
    if "future_state w g \<noteq> Pending" for g v c r
  proof -
    from that Pending have "f \<noteq> g" by auto
    then show ?thesis by (simp add: future_state_def log_call_def)
  qed
  from Pending show ?thesis
    by (simp add: await_future_def Let_def keep) (simp add: log_call_def)
qed (simp_all add: await_future_def)

lemma log_call_world [simp]:
  "futs (log_call c r w) = futs w" "stores (log_call c r w) = stores w"
  by (simp_all add: log_call_def)

lemma close_world:
  "stores (fst (close E w s)) = stores w
   \<and> closing (fst (snd (close E w s))) = closing s
   \<and> length (futs (fst (close E w s))) = length (futs w)
   \<and> (\<forall>g. future_state w g \<noteq> Pending \<longrightarrow> future_state (fst (close E w s)) g = future_state w g)"
proof (cases "ensure_channel_is_open E w s = None \<and> \<not> closed s \<and> channel s \<noteq> None")
  case False
  then show ?thesis
    by (auto simp: close_def Let_def split: option.splits)
next
  case True
  then obtain h where h: "channel s = Some h" by auto
  define w1 where "w1 = log_call (ChannelClose h) (reply E (trace w) (ChannelClose h)) w"
  have w1: "stores w1 = stores w" "futs w1 = futs w"
    by (simp_all add: w1_def)
  then have st: "future_state w1 g = future_state w g" for g
    by (simp add: future_state_def)
  show ?thesis
  proof (cases "reply E (trace w) (ChannelClose h)")
    case (Some e)
    with True h w1 st show ?thesis
      by (simp add: close_def Let_def invoke_def w1_def)
  next
    case None
    have "fst (close E w s) = fst (await_future E w1 (closing s))"
      "closing (fst (snd (close E w s))) = closing s"
      using True h None
      by (simp_all add: close_def Let_def invoke_def w1_def case_prod_beta split: option.splits)
    with await_future_world [of E w1 "closing s"] w1 st show ?thesis
      by simp
  qed
qed

lemma step_futures:
  "length (futs w) \<le> length (futs (fst (step E (w, s) c)))
   \<and> (\<forall>g. future_state w g \<noteq> Pending \<longrightarrow> future_state (fst (step E (w, s) c)) g = future_state w g)
   \<and> closing (snd (step E (w, s) c)) =
       (case c of OnReconnect conn number \<Rightarrow> length (futs w) | _ \<Rightarrow> closing s)
   \<and> (tracked_allocated w \<longrightarrow> tracked_allocated (fst (step E (w, s) c)))"
proof (cases c)
  case (OnReconnect conn number)
  have a: "future_state (fst (on_reconnect E w s conn number)) g = future_state w g"
    if "future_state w g \<noteq> Pending" for g
    using that resolved_unallocated [OF that] by (simp add: old_future_reconnect)
  have "r \<in> set (stores w) \<or> tracked r = []"
    if "r \<in> set (stores (swapped w s conn number))" for r
  proof (cases "futures s < length (stores w)")
    case True
    with that have "r \<in> insert ((stores w ! futures s)\<lparr>tracked := []\<rparr>) (set (stores w))"
      using set_update_subset_insert [of "stores w" "futures s"]
      by (auto simp: stores_swapped)
    then show ?thesis by auto
  next
    case False
    with that show ?thesis by (simp add: stores_swapped)
  qed
  then have b: "tracked_allocated w \<Longrightarrow> tracked_allocated (fst (on_reconnect E w s conn number))"
    by (fastforce simp: tracked_allocated_iff world_reconnect)
  from a b show ?thesis
    by (simp add: OnReconnect case_prod_beta world_reconnect)
next
  case (Initialize timeout)
  then show ?thesis
    by (simp add: case_prod_beta initialize_attempt future_state_def tracked_allocated_def)
next
  case (SetQos p q a t)
  then show ?thesis
    by (cases a)
       (simp_all add: case_prod_beta set_qos_one future_state_def tracked_allocated_def,
        simp add: set_qos_def)
next
  case Close
  with close_world [of E w s] show ?thesis
    by (simp add: case_prod_beta tracked_allocated_def)
next
  case (DeclareExchange name ps robust)
  then show ?thesis
    by (cases "reply E (trace w) (SuperDeclareExchange name ps)")
       (simp_all add: case_prod_beta declare_exchange_cases future_state_def tracked_allocated_def)
next
  case (ExchangeDelete name timeout if_unused nowait)
  then show ?thesis
    by (cases "reply E (trace w) (SuperExchangeDelete name timeout if_unused nowait)")
       (simp_all add: case_prod_beta exchange_delete_cases future_state_def tracked_allocated_def)
next
  case (DeclareQueue name ps robust)
  then show ?thesis
    by (cases "reply E (trace w) (SuperDeclareQueue name ps)")
       (simp_all add: case_prod_beta declare_queue_cases future_state_def tracked_allocated_def)
next
  case (QueueDelete name timeout if_unused if_empty nowait)
  then show ?thesis
    by (cases "reply E (trace w) (SuperQueueDelete name timeout if_unused if_empty nowait)")
       (simp_all add: case_prod_beta queue_delete_cases future_state_def tracked_allocated_def)
qed

lemma step_stale:
  assumes "closing s < length (futs w)" and "closing (snd (step E (w, s) c)) \<noteq> closing s"
  shows "future_state (fst (step E (w, s) c)) (closing s) \<noteq> Pending"
proof (cases c)
  case (OnReconnect conn number)
  with assms(1) show ?thesis
    by (simp add: case_prod_beta old_future_reconnect)
qed (use assms(2) step_futures [of w E s c] in simp_all)

lemma step_allocated:
  assumes "closing s < length (futs w)"
  shows "closing (snd (step E (w, s) c)) < length (futs (fst (step E (w, s) c)))"
proof (cases c)
  case (OnReconnect conn number)
  then show ?thesis
    by (simp add: case_prod_beta world_reconnect)
qed (use assms step_futures [of w E s c] in simp_all)

lemma step_on_parts:
  "fst (step_on E (w, cs) (n, c)) = (if n < length cs then fst (step E (w, cs ! n) c) else w)"
  "snd (step_on E (w, cs) (n, c)) =
     (if n < length cs then cs[n := snd (step E (w, cs ! n) c)] else cs)"
  by (simp_all add: case_prod_beta)

lemma run_all_snoc: "run_all E wcs (calls @ [x]) = step_on E (run_all E wcs calls) x"
  by (simp add: run_all_def)

lemma run_all_signals:
  assumes start: "\<forall>i < length cs0. closing (cs0 ! i) < length (futs w0)"
  shows "length (snd (run_all E (w0, cs0) calls)) = length cs0
    \<and> (\<forall>i < length cs0. closing (snd (run_all E (w0, cs0) calls) ! i)
          < length (futs (fst (run_all E (w0, cs0) calls))))
    \<and> (\<forall>i < length cs0. \<forall>j \<le> length calls.
          closing (snd (run_all E (w0, cs0) (take j calls)) ! i)
            \<noteq> closing (snd (run_all E (w0, cs0) calls) ! i) \<longrightarrow>
          future_state (fst (run_all E (w0, cs0) calls))
            (closing (snd (run_all E (w0, cs0) (take j calls)) ! i)) \<noteq> Pending)"
proof (induction calls rule: rev_induct)
  case Nil
  from start show ?case by (simp add: run_all_def)
next
  case (snoc x calls)
  obtain n c where x: "x = (n, c)" by (cases x)
  define W where "W = fst (run_all E (w0, cs0) calls)"
  define C where "C = snd (run_all E (w0, cs0) calls)"
  define W' where "W' = fst (run_all E (w0, cs0) (calls @ [x]))"
  define C' where "C' = snd (run_all E (w0, cs0) (calls @ [x]))"
  have WC: "run_all E (w0, cs0) calls = (W, C)"
    by (simp add: W_def C_def)
  from snoc have len: "length C = length cs0"
    and alloc: "\<And>i. i < length cs0 \<Longrightarrow> closing (C ! i) < length (futs W)"
    and hist: "\<And>i j. i < length cs0 \<Longrightarrow> j \<le> length calls \<Longrightarrow>
        closing (snd (run_all E (w0, cs0) (take j calls)) ! i) \<noteq> closing (C ! i) \<Longrightarrow>
        future_state W (closing (snd (run_all E (w0, cs0) (take j calls)) ! i)) \<noteq> Pending"
    unfolding W_def C_def by blast+
  have W': "W' = (if n < length C then fst (step E (W, C ! n) c) else W)"
    and C': "C' = (if n < length C then C[n := snd (step E (W, C ! n) c)] else C)"
    by (simp_all add: W'_def C'_def run_all_snoc WC x step_on_parts del: step_on.simps)
  have len': "length C' = length cs0"
    by (simp add: C' len)
  have keep: "future_state W' g = future_state W g" if "future_state W g \<noteq> Pending" for g
    using that step_futures [of W E "C ! n" c] by (simp add: W')
  have grow: "length (futs W) \<le> length (futs W')"
    using step_futures [of W E "C ! n" c] by (simp add: W')
  have alloc': "closing (C' ! i) < length (futs W')" if i: "i < length cs0" for i
  proof (cases "n < length C \<and> i = n")
    case True
    with i len step_allocated [OF alloc [OF i], of E c] show ?thesis
      by (simp add: W' C')
  next
    case False
    with alloc [OF i] grow show ?thesis
      by (auto simp: C')
  qed
  have stale: "future_state W' (closing (C ! i)) \<noteq> Pending"
    if i: "i < length cs0" and moved: "closing (C ! i) \<noteq> closing (C' ! i)" for i
  proof -
    from moved have n: "n < length C" "i = n"
      by (auto simp: C' split: if_splits) (metis nth_list_update_neq)
    with moved len i have "closing (snd (step E (W, C ! n) c)) \<noteq> closing (C ! n)"
      by (simp add: C')
    with alloc [OF i] n show ?thesis
      using step_stale [of "C ! n" W E c] by (simp add: W')
  qed
  have hist': "future_state W' (closing (snd (run_all E (w0, cs0) (take j (calls @ [x]))) ! i))
      \<noteq> Pending"
    if i: "i < length cs0" and j: "j \<le> length (calls @ [x])"
      and diff: "closing (snd (run_all E (w0, cs0) (take j (calls @ [x]))) ! i) \<noteq> closing (C' ! i)"
    for i j
  proof (cases "j \<le> length calls")
    case False
    with j have "take j (calls @ [x]) = calls @ [x]" by simp
    with diff show ?thesis by (simp add: C'_def)
  next
    case True
    then have tk: "take j (calls @ [x]) = take j calls" by simp
    show ?thesis
    proof (cases "closing (snd (run_all E (w0, cs0) (take j calls)) ! i) = closing (C ! i)")
      case True
      with diff stale [OF i] show ?thesis unfolding tk by simp
    next
      case False
      from hist [OF i \<open>j \<le> length calls\<close> False] keep show ?thesis
        unfolding tk by simp
    qed
  qed
  from len' alloc' hist' show ?case
    unfolding W'_def C'_def by blast
qed

text \<open>
  C7. Closing-signal swap. Take any world, with any number of channels, in which the
  channel's closing signal and all tracked operations are allocated futures.
  \<^verbatim>\<open>on_reconnect\<close> leaves the closing signal it found resolved: with the
  connection-lost error if it was unresolved, untouched otherwise. The channel's new
  closing signal is a future allocated by this call and is unresolved. Rejection,
  allocation, bulk failure and the adoption of the new connection are the first
  events of the call, in this order, and the channel holds the new connection and
  channel number. No future that was resolved is changed.

  In every interleaving of calls on the channels of one connection, every closing
  signal that a channel held at some point and holds no longer is resolved: no channel
  ever has an unresolved closing signal besides its current one.
\<close>

theorem closing_signal_swap:
  "(closing s < length (futs w) \<and> tracked_allocated w \<longrightarrow>
      (let w' = fst (on_reconnect E w s conn number);
           s' = fst (snd (on_reconnect E w s conn number)) in
         future_state w' (closing s) =
           (if future_state w (closing s) = Pending
            then Exception (ConnectionError ''Auto Reconnect Error'')
            else future_state w (closing s))
       \<and> future_state w' (closing s) \<noteq> Pending
       \<and> closing s' = length (futs w) \<and> closing s' \<noteq> closing s
       \<and> future_state w' (closing s') = Pending
       \<and> connection s' = conn \<and> channel_number s' = number
       \<and> take (length (swap_calls w s conn number)) (new_events w w')
            = map (\<lambda>c. (c, None)) (swap_calls w s conn number)
       \<and> (\<forall>g. future_state w g \<noteq> Pending \<longrightarrow> future_state w' g = future_state w g)))
   \<and> (list_all (\<lambda>s. closing s < length (futs w0)) cs0 \<longrightarrow>
        (\<forall>i < length cs0. \<forall>j \<le> length calls.
           closing (snd (run_all E' (w0, cs0) (take j calls)) ! i)
             \<noteq> closing (snd (run_all E' (w0, cs0) calls) ! i) \<longrightarrow>
           future_state (fst (run_all E' (w0, cs0) calls))
             (closing (snd (run_all E' (w0, cs0) (take j calls)) ! i)) \<noteq> Pending))"
proof (intro conjI impI)
  assume "closing s < length (futs w) \<and> tracked_allocated w"
  then have c: "closing s < length (futs w)" and ta: "tracked_allocated w"
    by simp_all
  let ?w' = "fst (on_reconnect E w s conn number)"
  have stale: "future_state ?w' (closing s) =
        (if future_state w (closing s) = Pending
         then Exception (ConnectionError ''Auto Reconnect Error'')
         else future_state w (closing s))"
    using c by (simp add: old_future_reconnect)
  have fresh: "future_state ?w' (length (futs w)) = Pending"
    using ta by (rule new_future_reconnect)
  have keep: "future_state ?w' g = future_state w g" if "future_state w g \<noteq> Pending" for g
    using step_futures [of w E s "OnReconnect conn number"] that
    by (simp add: case_prod_beta)
  show "(let w' = fst (on_reconnect E w s conn number);
           s' = fst (snd (on_reconnect E w s conn number)) in
         future_state w' (closing s) =
           (if future_state w (closing s) = Pending
            then Exception (ConnectionError ''Auto Reconnect Error'')
            else future_state w (closing s))
       \<and> future_state w' (closing s) \<noteq> Pending
       \<and> closing s' = length (futs w) \<and> closing s' \<noteq> closing s
       \<and> future_state w' (closing s') = Pending
       \<and> connection s' = conn \<and> channel_number s' = number
       \<and> take (length (swap_calls w s conn number)) (new_events w w')
            = map (\<lambda>c. (c, None)) (swap_calls w s conn number)
       \<and> (\<forall>g. future_state w g \<noteq> Pending \<longrightarrow> future_state w' g = future_state w g))"
    unfolding Let_def
    using stale c fresh keep
    by (simp add: world_reconnect reconnect_events)
next
  assume "list_all (\<lambda>s. closing s < length (futs w0)) cs0"
  then have "\<forall>i < length cs0. closing (cs0 ! i) < length (futs w0)"
    by (simp add: list_all_length)
  from run_all_signals [OF this, of E' calls]
  show "\<forall>i < length cs0. \<forall>j \<le> length calls.
           closing (snd (run_all E' (w0, cs0) (take j calls)) ! i)
             \<noteq> closing (snd (run_all E' (w0, cs0) calls) ! i) \<longrightarrow>
           future_state (fst (run_all E' (w0, cs0) calls))
             (closing (snd (run_all E' (w0, cs0) (take j calls)) ! i)) \<noteq> Pending"
    by blast
qed

text \<open>
  C7 on the first of two channels of one connection, and over calls on both channels
  in turn: the signals the first channel held before its two reconnects are resolved,
  its current one is not.
\<close>

theorem closing_signal_swap_witness:
  "closing (snd two_example ! 0) = 0
   \<and> closing (snd two_example ! 1) = 1
   \<and> future_state (fst two_example) 0 = Pending
   \<and> future_state (fst (on_reconnect calm (fst two_example) (snd two_example ! 0) 2 (Some 2))) 0
       = Exception (ConnectionError ''Auto Reconnect Error'')
   \<and> closing (fst (snd (on_reconnect calm (fst two_example) (snd two_example ! 0) 2 (Some 2)))) = 4
   \<and> future_state (fst (on_reconnect calm (fst two_example) (snd two_example ! 0) 2 (Some 2))) 4
       = Pending
   \<and> take 4 (new_events (fst two_example)
         (fst (on_reconnect calm (fst two_example) (snd two_example ! 0) 2 (Some 2))))
       = [(SetException 0 (ConnectionError ''Auto Reconnect Error''), None),
          (CreateFuture 4, None),
          (RejectAll 1 (ConnectionError ''Auto Reconnect Error''), None),
          (Adopt 2 (Some 2), None)]
   \<and> closing (snd (run_all calm two_example (take 2 interleaved)) ! 0) = 4
   \<and> closing (snd (run_all calm two_example interleaved) ! 0) = 6
   \<and> future_state (fst (run_all calm two_example interleaved)) 0 \<noteq> Pending
   \<and> future_state (fst (run_all calm two_example interleaved)) 4 \<noteq> Pending
   \<and> future_state (fst (run_all calm two_example interleaved)) 6 = Pending"
proof -
  let ?w = "fst two_example" and ?a = "snd two_example ! 0"
  let ?R = "on_reconnect calm ?w ?a 2 (Some 2)"
  have pair: "two_example = (fst two_example, snd two_example)"
    by simp
  have start: "closing ?a < length (futs ?w) \<and> tracked_allocated ?w"
    "list_all (\<lambda>s. closing s < length (futs (fst two_example))) (snd two_example)"
    by code_simp+
  have facts: "closing ?a = 0" "closing (snd two_example ! 1) = 1" "length (futs ?w) = 4"
    "future_state ?w 0 = Pending" "length (snd two_example) = 2" "length interleaved = 4"
    by code_simp+
  have swap: "swap_calls ?w ?a 2 (Some 2)
      = [SetException 0 (ConnectionError ''Auto Reconnect Error''), CreateFuture 4,
         RejectAll 1 (ConnectionError ''Auto Reconnect Error''), Adopt 2 (Some 2)]"
    by code_simp
  have held: "closing (snd (run_all calm two_example []) ! 0) = 0"
    "closing (snd (run_all calm two_example (take 2 interleaved)) ! 0) = 4"
    "closing (snd (run_all calm two_example interleaved) ! 0) = 6"
    "future_state (fst (run_all calm two_example interleaved)) 6 = Pending"
    by code_simp+
  note r = closing_signal_swap [where E = calm and w = ?w and s = ?a and conn = 2
      and number = "Some 2" and E' = calm and ?w0.0 = "fst two_example"
      and ?cs0.0 = "snd two_example" and calls = interleaved, unfolded Let_def]
  from r start have local: "future_state (fst ?R) (closing ?a) =
           (if future_state ?w (closing ?a) = Pending
            then Exception (ConnectionError ''Auto Reconnect Error'')
            else future_state ?w (closing ?a))"
    "closing (fst (snd ?R)) = length (futs ?w)"
    "future_state (fst ?R) (closing (fst (snd ?R))) = Pending"
    "take (length (swap_calls ?w ?a 2 (Some 2))) (new_events ?w (fst ?R))
       = map (\<lambda>c. (c, None)) (swap_calls ?w ?a 2 (Some 2))"
    by blast+
  from r start have hist: "\<forall>i < length (snd two_example). \<forall>j \<le> length interleaved.
           closing (snd (run_all calm (fst two_example, snd two_example) (take j interleaved)) ! i)
             \<noteq> closing (snd (run_all calm (fst two_example, snd two_example) interleaved) ! i) \<longrightarrow>
           future_state (fst (run_all calm (fst two_example, snd two_example) interleaved))
             (closing (snd (run_all calm (fst two_example, snd two_example) (take j interleaved)) ! i))
             \<noteq> Pending"
    by blast
  have zero: "future_state (fst (run_all calm two_example interleaved)) 0 \<noteq> Pending"
    using hist [rule_format, of 0 0] by (simp add: facts held)
  have four: "future_state (fst (run_all calm two_example interleaved)) 4 \<noteq> Pending"
    using hist [rule_format, of 0 2] by (simp add: facts held)
  have cl: "closing (fst (snd ?R)) = 4"
    using local(2) by (simp add: facts)
  from local(1) have stale: "future_state (fst ?R) 0 = Exception (ConnectionError ''Auto Reconnect Error'')"
    by (simp add: facts)
  from local(3) have fresh: "future_state (fst ?R) 4 = Pending"
    by (simp add: cl)
  have len: "length (swap_calls ?w ?a 2 (Some 2)) = 4"
    by code_simp
  note order = local(4) [unfolded len, unfolded swap list.map]
  from facts held zero four cl stale fresh order show ?thesis
    by simp
qed

subsection \<open>Reconnecting a channel whose closed flag is set\<close>

text \<open>
  C10. Reconnect ignores the closed flag. Whatever the flag is, \<^verbatim>\<open>on_reconnect\<close>
  does the same to the world, ends the same way and leaves the same channel but for
  the flag, which it hands back as it found it. With no condition on the flag: the
  channel holds the new connection and channel number and a new closing signal; its
  maps and its QoS pair are as before; the trace grows by steps 1 to 4 and then by the
  replay (open, QoS, every remembered exchange, every remembered queue) as far as the
  first call that raises, and the call ends as the replay ends. A future allocated
  before the call holds the connection-lost error if it was unresolved and is the old
  closing signal or a pending operation of the channel's registry, and is unchanged
  otherwise; the channel's registry is empty.
\<close>

theorem reconnect_ignores_closed:
  "on_reconnect E w (s\<lparr>closed := b\<rparr>) conn number =
     (case on_reconnect E w s conn number of (w', s', r) \<Rightarrow> (w', s'\<lparr>closed := b\<rparr>, r))
   \<and> (let w' = fst (on_reconnect E w s conn number);
           s' = fst (snd (on_reconnect E w s conn number));
           r = snd (snd (on_reconnect E w s conn number));
           t = trace w @ map (\<lambda>c. (c, None)) (swap_calls w s conn number) in
        closed s' = closed s
      \<and> connection s' = conn \<and> channel_number s' = number
      \<and> closing s' = length (futs w)
      \<and> exchanges s' = exchanges s \<and> queues s' = queues s \<and> qos s' = qos s
      \<and> trace w' = t @ fst (attempt E t (replay_calls s))
      \<and> r = (case snd (attempt E t (replay_calls s)) of None \<Rightarrow> Inr () | Some e \<Rightarrow> Inl e)
      \<and> (\<forall>f < length (futs w). future_state w' f =
            (if future_state w f = Pending
                \<and> (f = closing s
                   \<or> (futures s < length (stores w) \<and> f \<in> set (tracked (stores w ! futures s))))
             then Exception (ConnectionError ''Auto Reconnect Error'')
             else future_state w f))
      \<and> (futures s < length (stores w) \<longrightarrow> tracked (stores w' ! futures s) = []))"
proof -
  have flag: "on_reconnect E w (s\<lparr>closed := b\<rparr>) conn number =
     (case on_reconnect E w s conn number of (w', s', r) \<Rightarrow> (w', s'\<lparr>closed := b\<rparr>, r))"
    by (simp add: on_reconnect_attempt)
  have fields: "qos (fst (snd (on_reconnect E w s conn number))) = qos s"
    by (simp add: on_reconnect_attempt)
  have tr: "trace (fst (on_reconnect E w s conn number)) =
      (trace w @ map (\<lambda>c. (c, None)) (swap_calls w s conn number))
      @ fst (attempt E (trace w @ map (\<lambda>c. (c, None)) (swap_calls w s conn number)) (replay_calls s))"
    by (simp add: on_reconnect_attempt trace_swapped)
  have res: "snd (snd (on_reconnect E w s conn number)) =
      (case snd (attempt E (trace w @ map (\<lambda>c. (c, None)) (swap_calls w s conn number))
         (replay_calls s)) of None \<Rightarrow> Inr () | Some e \<Rightarrow> Inl e)"
    by (simp add: on_reconnect_attempt trace_swapped)
  have emptied: "tracked (stores (fst (on_reconnect E w s conn number)) ! futures s) = []"
    if "futures s < length (stores w)"
    using that by (simp add: world_reconnect stores_swapped)
  show ?thesis
    unfolding Let_def
    using flag fields tr res emptied old_future_reconnect [of _ w E s conn number]
    by (simp add: world_reconnect)
qed

text \<open>
  C10 on a channel whose closed flag is set while its closing signal is unresolved,
  with three remembered entities and one operation pending: the signal and the
  operation are rejected, the new connection is adopted, the channel is re-opened, the
  QoS pair is reapplied, all three hooks run, and the flag stays set.
\<close>

theorem reconnect_ignores_closed_witness:
  "closed (snd half_closed_channel)
   \<and> future_state (fst half_closed_channel) (closing (snd half_closed_channel)) = Pending
   \<and> tracked (stores (fst half_closed_channel) ! futures (snd half_closed_channel)) = [1]
   \<and> future_state (fst half_closed_channel) 1 = Pending
   \<and> snd (snd (on_reconnect calm (fst half_closed_channel) (snd half_closed_channel) 2 (Some 2)))
       = Inr ()
   \<and> closed (fst (snd (on_reconnect calm (fst half_closed_channel) (snd half_closed_channel)
        2 (Some 2))))
   \<and> connection (fst (snd (on_reconnect calm (fst half_closed_channel) (snd half_closed_channel)
        2 (Some 2)))) = 2
   \<and> channel_number (fst (snd (on_reconnect calm (fst half_closed_channel)
        (snd half_closed_channel) 2 (Some 2)))) = Some 2
   \<and> future_state (fst (on_reconnect calm (fst half_closed_channel) (snd half_closed_channel)
        2 (Some 2))) 0 = Exception (ConnectionError ''Auto Reconnect Error'')
   \<and> future_state (fst (on_reconnect calm (fst half_closed_channel) (snd half_closed_channel)
        2 (Some 2))) 1 = Exception (ConnectionError ''Auto Reconnect Error'')
   \<and> trace (fst (on_reconnect calm (fst half_closed_channel) (snd half_closed_channel) 2 (Some 2)))
       = trace (fst half_closed_channel)
         @ [(SetException 0 (ConnectionError ''Auto Reconnect Error''), None),
            (CreateFuture 2, None),
            (RejectAll 1 (ConnectionError ''Auto Reconnect Error''), None),
            (Adopt 2 (Some 2), None),
            (SuperInitialize, None), (SuperSetQos 0 0 None, None),
            (ExchangeOnReconnect \<lparr>ent_id = 3, ent_name = ''x''\<rparr>, None),
            (QueueOnReconnect \<lparr>ent_id = 4, ent_name = ''y''\<rparr>, None),
            (QueueOnReconnect \<lparr>ent_id = 5, ent_name = ''z''\<rparr>, None)]"
proof -
  let ?w = "fst half_closed_channel" and ?s = "snd half_closed_channel"
  let ?t = "trace ?w @ map (\<lambda>c. (c, None :: error option)) (swap_calls ?w ?s 2 (Some 2))"
  have before: "closed ?s" "closing ?s = 0" "futures ?s = 1" "length (futs ?w) = 2"
    "length (stores ?w) = 2" "tracked (stores ?w ! 1) = [1]"
    "future_state ?w 0 = Pending" "future_state ?w 1 = Pending"
    "tracked (stores ?w ! Suc 0) = [Suc 0]" "future_state ?w (Suc 0) = Pending"
    by code_simp+
  have swap: "map (\<lambda>c. (c, None :: error option)) (swap_calls ?w ?s 2 (Some 2))
      = [(SetException 0 (ConnectionError ''Auto Reconnect Error''), None),
         (CreateFuture 2, None),
         (RejectAll 1 (ConnectionError ''Auto Reconnect Error''), None),
         (Adopt 2 (Some 2), None)]"
    by code_simp
  have replay: "attempt calm ?t (replay_calls ?s)
      = ([(SuperInitialize, None), (SuperSetQos 0 0 None, None),
          (ExchangeOnReconnect \<lparr>ent_id = 3, ent_name = ''x''\<rparr>, None),
          (QueueOnReconnect \<lparr>ent_id = 4, ent_name = ''y''\<rparr>, None),
          (QueueOnReconnect \<lparr>ent_id = 5, ent_name = ''z''\<rparr>, None)], None)"
    by code_simp
  note r = reconnect_ignores_closed [where E = calm and w = ?w and s = ?s and conn = 2
      and number = "Some 2", unfolded Let_def, THEN conjunct2]
  from r have flag: "closed (fst (snd (on_reconnect calm ?w ?s 2 (Some 2)))) = closed ?s"
    and adopt: "connection (fst (snd (on_reconnect calm ?w ?s 2 (Some 2)))) = 2"
      "channel_number (fst (snd (on_reconnect calm ?w ?s 2 (Some 2)))) = Some 2"
    and tr: "trace (fst (on_reconnect calm ?w ?s 2 (Some 2)))
      = ?t @ fst (attempt calm ?t (replay_calls ?s))"
    and res: "snd (snd (on_reconnect calm ?w ?s 2 (Some 2)))
      = (case snd (attempt calm ?t (replay_calls ?s)) of None \<Rightarrow> Inr () | Some e \<Rightarrow> Inl e)"
    and fut: "\<forall>f < length (futs ?w). future_state (fst (on_reconnect calm ?w ?s 2 (Some 2))) f =
            (if future_state ?w f = Pending
                \<and> (f = closing ?s
                   \<or> (futures ?s < length (stores ?w)
                      \<and> f \<in> set (tracked (stores ?w ! futures ?s))))
             then Exception (ConnectionError ''Auto Reconnect Error'')
             else future_state ?w f)"
    by blast+
  from fut have zero: "future_state (fst (on_reconnect calm ?w ?s 2 (Some 2))) 0
      = Exception (ConnectionError ''Auto Reconnect Error'')"
    by (simp add: before)
  have "(1::nat) < length (futs ?w)"
    by (simp add: before)
  with fut have "future_state (fst (on_reconnect calm ?w ?s 2 (Some 2))) 1 =
            (if future_state ?w 1 = Pending
                \<and> (1 = closing ?s
                   \<or> (futures ?s < length (stores ?w)
                      \<and> 1 \<in> set (tracked (stores ?w ! futures ?s))))
             then Exception (ConnectionError ''Auto Reconnect Error'')
             else future_state ?w 1)"
    by blast
  then have one: "future_state (fst (on_reconnect calm ?w ?s 2 (Some 2))) 1
      = Exception (ConnectionError ''Auto Reconnect Error'')"
    by (simp add: before)
  note tr' = tr [unfolded replay fst_conv, unfolded swap append_assoc append.simps]
  from res have ok: "snd (snd (on_reconnect calm ?w ?s 2 (Some 2))) = Inr ()"
    unfolding replay by simp
  from flag adopt zero one tr' ok before show ?thesis
    by simp
qed

subsection \<open>The registries of two channels\<close>

lemma init_world:
  "futs (fst (init w conn store number)) = futs w @ [Pending]"
  "stores (fst (init w conn store number)) = stores w @ [\<lparr>parent = Some store, tracked = []\<rparr>]"
  "trace (fst (init w conn store number)) = trace w @ [(CreateFuture (length (futs w)), None)]"
  "closing (snd (init w conn store number)) = length (futs w)"
  "futures (snd (init w conn store number)) = length (stores w)"
  by (simp_all add: init_def get_child_def super_init_def loop_create_future_def Let_def
      log_call_def)

lemma track_world:
  assumes "r < length (stores w)"
  shows "futs (fst (track w r)) = futs w @ [Pending]"
    and "stores (fst (track w r)) =
      (stores w)[r := (stores w ! r)\<lparr>tracked := tracked (stores w ! r) @ [length (futs w)]\<rparr>]"
    and "trace (fst (track w r)) = trace w"
  using assms by (simp_all add: track_def Let_def)

lemma two_channels_parts:
  "two_channels w conn root pending =
     (foldl (\<lambda>v on_a. fst (track v (if on_a then length (stores w) else Suc (length (stores w)))))
        (fst (init (fst (init w conn root None)) conn root None)) pending,
      snd (init w conn root None),
      snd (init (fst (init w conn root None)) conn root None))"
  by (simp add: two_channels_def case_prod_beta Let_def init_world cong: if_cong)

lemma pending_shape:
  fixes w :: world and root :: nat and conn :: nat
  defines "m \<equiv> length (stores w)" and "n \<equiv> length (futs w)"
  defines "w2 \<equiv> fst (init (fst (init w conn root None)) conn root None)"
  defines "F \<equiv> (\<lambda>w on_a. fst (track w (if on_a then m else Suc m)))"
  shows "length (stores (foldl F w2 pending)) = m + 2
    \<and> parent (stores (foldl F w2 pending) ! m) = Some root
    \<and> parent (stores (foldl F w2 pending) ! Suc m) = Some root
    \<and> futs (foldl F w2 pending) = futs w @ replicate (2 + length pending) Pending
    \<and> (\<forall>f \<in> set (tracked (stores (foldl F w2 pending) ! m)).
          n + 2 \<le> f \<and> f < n + 2 + length pending)
    \<and> (\<forall>f \<in> set (tracked (stores (foldl F w2 pending) ! Suc m)).
          n + 2 \<le> f \<and> f < n + 2 + length pending)
    \<and> set (tracked (stores (foldl F w2 pending) ! m))
        \<inter> set (tracked (stores (foldl F w2 pending) ! Suc m)) = {}
    \<and> length (tracked (stores (foldl F w2 pending) ! m)) = length (filter id pending)
    \<and> length (tracked (stores (foldl F w2 pending) ! Suc m)) = length (filter Not pending)"
proof (induction pending rule: rev_induct)
  case Nil
  show ?case
    by (simp add: w2_def m_def n_def init_world nth_append numeral_2_eq_2)
next
  case (snoc on_a pending)
  define w3 where "w3 = foldl F w2 pending"
  define r where "r = (if on_a then m else Suc m)"
  have step: "foldl F w2 (pending @ [on_a]) = fst (track w3 r)"
    by (simp add: w3_def F_def r_def)
  from snoc have len: "length (stores w3) = m + 2"
    and futs: "futs w3 = futs w @ replicate (2 + length pending) Pending"
    unfolding w3_def by simp_all
  have r: "r < length (stores w3)"
    by (simp add: len r_def)
  have new: "length (futs w3) = n + 2 + length pending"
    by (simp add: futs n_def)
  have rep: "replicate (length pending) Pending @ [Pending] = Pending # replicate (length pending) Pending"
    by (simp add: replicate_append_same)
  show ?case
  proof (cases on_a)
    case True
    with snoc [folded w3_def] show ?thesis
      unfolding step track_world [OF r] new
      by (auto simp: r_def len futs rep)
  next
    case False
    with snoc [folded w3_def] show ?thesis
      unfolding step track_world [OF r] new
      by (auto simp: r_def len futs rep)
  qed
qed

text \<open>
  C9. Bulk rejection scoping. Two channels constructed on one connection hold two
  different registries, each a child of the connection's root registry. With any
  number of operations pending on each, \<^verbatim>\<open>on_reconnect\<close> on the first channel resolves
  every operation pending in the first channel's registry with the connection-lost
  error and empties that registry; every operation pending in the second channel's
  registry stays unresolved and that registry is unchanged. No future allocated before
  the call changes but the first channel's pending operations and its closing signal.
\<close>

theorem bulk_rejection_is_scoped:
  "(let (w3, a, b) = two_channels w conn root pending;
        w4 = fst (on_reconnect E w3 a conn' number) in
      futures a \<noteq> futures b
    \<and> parent (stores w3 ! futures a) = Some root
    \<and> parent (stores w3 ! futures b) = Some root
    \<and> length (tracked (stores w3 ! futures a)) = length (filter id pending)
    \<and> length (tracked (stores w3 ! futures b)) = length (filter Not pending)
    \<and> (\<forall>f \<in> set (tracked (stores w3 ! futures a)).
          future_state w3 f = Pending
        \<and> future_state w4 f = Exception (ConnectionError ''Auto Reconnect Error''))
    \<and> tracked (stores w4 ! futures a) = []
    \<and> (\<forall>f \<in> set (tracked (stores w3 ! futures b)).
          future_state w3 f = Pending \<and> future_state w4 f = Pending)
    \<and> stores w4 ! futures b = stores w3 ! futures b
    \<and> (\<forall>f < length (futs w3). f \<noteq> closing a \<longrightarrow> f \<notin> set (tracked (stores w3 ! futures a))
          \<longrightarrow> future_state w4 f = future_state w3 f))"
proof -
  define m where "m = length (stores w)"
  define n where "n = length (futs w)"
  define w3 where "w3 = fst (two_channels w conn root pending)"
  define a where "a = fst (snd (two_channels w conn root pending))"
  define b where "b = snd (snd (two_channels w conn root pending))"
  define w4 where "w4 = fst (on_reconnect E w3 a conn' number)"
  define A where "A = tracked (stores w3 ! m)"
  define B where "B = tracked (stores w3 ! Suc m)"
  have a: "futures a = m" "closing a = n"
    by (simp_all add: a_def two_channels_parts init_world m_def n_def)
  have b: "futures b = Suc m"
    by (simp add: b_def two_channels_parts init_world m_def)
  note shape = pending_shape [of w conn root pending, folded m_def n_def]
  have w3: "w3 = foldl (\<lambda>v on_a. fst (track v (if on_a then m else Suc m)))
      (fst (init (fst (init w conn root None)) conn root None)) pending"
    unfolding w3_def two_channels_parts m_def by simp
  from shape have len: "length (stores w3) = m + 2"
    and par: "parent (stores w3 ! m) = Some root" "parent (stores w3 ! Suc m) = Some root"
    and futs: "futs w3 = futs w @ replicate (2 + length pending) Pending"
    and inA: "\<And>f. f \<in> set A \<Longrightarrow> n + 2 \<le> f \<and> f < n + 2 + length pending"
    and inB: "\<And>f. f \<in> set B \<Longrightarrow> n + 2 \<le> f \<and> f < n + 2 + length pending"
    and disj: "set A \<inter> set B = {}"
    and card: "length A = length (filter id pending)" "length B = length (filter Not pending)"
    unfolding w3 [symmetric] A_def B_def by simp_all
  have lenf: "length (futs w3) = n + 2 + length pending"
    by (simp add: futs n_def)
  have pend: "future_state w3 f = Pending" if "n + 2 \<le> f" "f < n + 2 + length pending" for f
    using that by (simp add: future_state_def futs nth_append n_def)
  have st: "future_state w4 f = future_state (swapped w3 a conn' number) f" for f
    unfolding w4_def by (rule future_state_futs) (simp add: world_reconnect)
  have old: "future_state w4 f =
      (if future_state w3 f = Pending \<and> (f = n \<or> f \<in> set A)
       then Exception (ConnectionError ''Auto Reconnect Error'') else future_state w3 f)"
    if "f < length (futs w3)" for f
    using that by (simp add: st old_future_swapped a len A_def)
  have stores4: "stores w4 = (stores w3)[m := (stores w3 ! m)\<lparr>tracked := []\<rparr>]"
    by (simp add: w4_def world_reconnect stores_swapped a len)
  have rejected: "future_state w3 f = Pending
      \<and> future_state w4 f = Exception (ConnectionError ''Auto Reconnect Error'')"
    if "f \<in> set A" for f
    using inA [OF that] that by (simp add: old lenf pend)
  have kept: "future_state w3 f = Pending \<and> future_state w4 f = Pending"
    if "f \<in> set B" for f
  proof -
    from that disj have "f \<notin> set A" by auto
    with inB [OF that] show ?thesis by (simp add: old lenf pend)
  qed
  have others: "future_state w4 f = future_state w3 f"
    if "f < length (futs w3)" "f \<noteq> n" "f \<notin> set A" for f
    using that by (simp add: old)
  have "futures a \<noteq> futures b
    \<and> parent (stores w3 ! futures a) = Some root
    \<and> parent (stores w3 ! futures b) = Some root
    \<and> length (tracked (stores w3 ! futures a)) = length (filter id pending)
    \<and> length (tracked (stores w3 ! futures b)) = length (filter Not pending)
    \<and> (\<forall>f \<in> set (tracked (stores w3 ! futures a)).
          future_state w3 f = Pending
        \<and> future_state w4 f = Exception (ConnectionError ''Auto Reconnect Error''))
    \<and> tracked (stores w4 ! futures a) = []
    \<and> (\<forall>f \<in> set (tracked (stores w3 ! futures b)).
          future_state w3 f = Pending \<and> future_state w4 f = Pending)
    \<and> stores w4 ! futures b = stores w3 ! futures b
    \<and> (\<forall>f < length (futs w3). f \<noteq> closing a \<longrightarrow> f \<notin> set (tracked (stores w3 ! futures a))
          \<longrightarrow> future_state w4 f = future_state w3 f)"
    using par card rejected kept others
    by (simp add: a b A_def [symmetric] B_def [symmetric] stores4 len)
  then show ?thesis
    by (simp add: case_prod_beta Let_def w3_def a_def b_def w4_def)
qed

text \<open>
  C9 with one operation pending on each of the two channels.
\<close>

theorem bulk_rejection_is_scoped_witness:
  "tracked (stores (fst (two_channels fresh 0 0 [True, False])) ! 1) = [2]
   \<and> tracked (stores (fst (two_channels fresh 0 0 [True, False])) ! 2) = [3]
   \<and> futures (fst (snd (two_channels fresh 0 0 [True, False]))) = 1
   \<and> futures (snd (snd (two_channels fresh 0 0 [True, False]))) = 2
   \<and> future_state (fst (on_reconnect calm (fst (two_channels fresh 0 0 [True, False]))
        (fst (snd (two_channels fresh 0 0 [True, False]))) 2 (Some 2))) 2
       = Exception (ConnectionError ''Auto Reconnect Error'')
   \<and> future_state (fst (on_reconnect calm (fst (two_channels fresh 0 0 [True, False]))
        (fst (snd (two_channels fresh 0 0 [True, False]))) 2 (Some 2))) 3
       = Pending"
proof -
  let ?T = "two_channels fresh 0 0 [True, False]"
  let ?w4 = "fst (on_reconnect calm (fst ?T) (fst (snd ?T)) 2 (Some 2))"
  have a: "futures (fst (snd ?T)) = 1" and b: "futures (snd (snd ?T)) = 2"
    and ta: "tracked (stores (fst ?T) ! 1) = [2]" and tb: "tracked (stores (fst ?T) ! 2) = [3]"
    by code_simp+
  note r = bulk_rejection_is_scoped [where w = fresh and conn = 0 and root = 0
      and pending = "[True, False]" and E = calm and conn' = 2 and number = "Some 2",
      unfolded Let_def case_prod_beta a b ta tb]
  from r have "future_state ?w4 2 = Exception (ConnectionError ''Auto Reconnect Error'')"
    and "future_state ?w4 3 = Pending"
    by simp_all
  with a b ta tb show ?thesis
    by simp
qed

end
